theory Spec2Isabelle
  imports Main "HOL-Library.Word"
begin

unbundle bit_operations_syntax

section \<open>JavaScript strings\<close>

text \<open>
  A JavaScript string is represented by the bytes of its UTF-8 encoding, one \<^typ>\<open>char\<close>
  per byte. Every character the client inspects (\<open><\<close>, \<open>>\<close>, \<open>:\<close>, \<open>/\<close>, \<open>%\<close>,
  digits, tag letters) is a single ASCII byte, and no ASCII byte occurs inside a multi-byte
  UTF-8 sequence, so searching, slicing and splitting at these characters agree with the
  same operations on UTF-16 code units. Case conversion is modelled on ASCII letters only.
\<close>

definition startsWith :: "string \<Rightarrow> string \<Rightarrow> bool" where
  "startsWith s p = (take (length p) s = p)"

definition endsWith :: "string \<Rightarrow> string \<Rightarrow> bool" where
  "endsWith s p = (length p \<le> length s \<and> drop (length s - length p) s = p)"

text \<open>\<open>s.includes(p)\<close>: \<open>p\<close> occurs in \<open>s\<close> as a contiguous substring.\<close>

fun includesStr :: "string \<Rightarrow> string \<Rightarrow> bool" where
  "includesStr [] p = (p = [])"
| "includesStr (c # cs) p = (startsWith (c # cs) p \<or> includesStr cs p)"

text \<open>\<open>s.replace(/\/+$/, "")\<close>: the maximal run of slashes at the end is removed.\<close>

definition stripTrailingSlashes :: "string \<Rightarrow> string" where
  "stripTrailingSlashes s = rev (dropWhile (\<lambda>c. c = CHR ''/'') (rev s))"

text \<open>\<open>s.split("/")\<close>: the pieces between slashes, empty pieces included.\<close>

fun splitSlash :: "string \<Rightarrow> string \<Rightarrow> string list" where
  "splitSlash acc [] = [acc]"
| "splitSlash acc (c # cs) =
     (if c = CHR ''/'' then acc # splitSlash [] cs else splitSlash (acc @ [c]) cs)"

definition asciiUpper :: string where
  "asciiUpper = ''ABCDEFGHIJKLMNOPQRSTUVWXYZ''"

definition asciiLower :: string where
  "asciiLower = ''abcdefghijklmnopqrstuvwxyz''"

definition asciiDigit :: string where
  "asciiDigit = ''0123456789''"

definition isAlpha :: "char \<Rightarrow> bool" where
  "isAlpha c = (c \<in> set asciiUpper \<or> c \<in> set asciiLower)"

definition isDigit :: "char \<Rightarrow> bool" where
  "isDigit c = (c \<in> set asciiDigit)"

definition toLowerChar :: "char \<Rightarrow> char" where
  "toLowerChar c = (case map_of (zip asciiUpper asciiLower) c of Some d \<Rightarrow> d | None \<Rightarrow> c)"

definition toLowerCase :: "string \<Rightarrow> string" where
  "toLowerCase s = map toLowerChar s"

text \<open>
  The white space of \<open>String.prototype.trim\<close>, of \<open>\s\<close> and of \<open>parseInt\<close>: TAB, LF, VT, FF,
  CR, SP as single bytes; U+00A0 as two bytes; U+1680, U+2000..U+200A, U+2028, U+2029,
  U+202F, U+205F, U+3000 and U+FEFF as three bytes.
\<close>

definition isWs1 :: "char \<Rightarrow> bool" where
  "isWs1 a = (a \<in> set [CHR 0x09, CHR 0x0A, CHR 0x0B, CHR 0x0C, CHR 0x0D, CHR 0x20])"

definition isWs2 :: "char \<Rightarrow> char \<Rightarrow> bool" where
  "isWs2 a b = (a = CHR 0xC2 \<and> b = CHR 0xA0)"

definition isWs3 :: "char \<Rightarrow> char \<Rightarrow> char \<Rightarrow> bool" where
  "isWs3 a b c =
     ((a = CHR 0xE1 \<and> b = CHR 0x9A \<and> c = CHR 0x80) \<or>
      (a = CHR 0xE2 \<and> b = CHR 0x80 \<and>
         c \<in> set [CHR 0x80, CHR 0x81, CHR 0x82, CHR 0x83, CHR 0x84, CHR 0x85, CHR 0x86,
                   CHR 0x87, CHR 0x88, CHR 0x89, CHR 0x8A, CHR 0xA8, CHR 0xA9, CHR 0xAF]) \<or>
      (a = CHR 0xE2 \<and> b = CHR 0x81 \<and> c = CHR 0x9F) \<or>
      (a = CHR 0xE3 \<and> b = CHR 0x80 \<and> c = CHR 0x80) \<or>
      (a = CHR 0xEF \<and> b = CHR 0xBB \<and> c = CHR 0xBF))"

fun trimStart :: "string \<Rightarrow> string" where
  "trimStart (a # b # c # s) =
     (if isWs1 a then trimStart (b # c # s)
      else if isWs2 a b then trimStart (c # s)
      else if isWs3 a b c then trimStart s
      else a # b # c # s)"
| "trimStart [a, b] =
     (if isWs1 a then trimStart [b] else if isWs2 a b then [] else [a, b])"
| "trimStart [a] = (if isWs1 a then [] else [a])"
| "trimStart [] = []"

text \<open>The same scan over the reversed string: the last byte of a character comes first.\<close>

fun trimStartRev :: "string \<Rightarrow> string" where
  "trimStartRev (c # b # a # s) =
     (if isWs1 c then trimStartRev (b # a # s)
      else if isWs2 b c then trimStartRev (a # s)
      else if isWs3 a b c then trimStartRev s
      else c # b # a # s)"
| "trimStartRev [c, b] =
     (if isWs1 c then trimStartRev [b] else if isWs2 b c then [] else [c, b])"
| "trimStartRev [c] = (if isWs1 c then [] else [c])"
| "trimStartRev [] = []"

definition trimEnd :: "string \<Rightarrow> string" where
  "trimEnd s = rev (trimStartRev (rev s))"

definition trim :: "string \<Rightarrow> string" where
  "trim s = trimEnd (trimStart s)"

text \<open>Decimal rendering of a natural number (\<open>String(n)\<close> for a status code or a port).\<close>

definition digitChar :: "nat \<Rightarrow> char" where
  "digitChar d = asciiDigit ! d"

function showNat :: "nat \<Rightarrow> string" where
  "showNat n = (if n < 10 then [digitChar n] else showNat (n div 10) @ [digitChar (n mod 10)])"
  by pat_completeness auto
termination
  by (relation "measure id") auto

declare showNat.simps [simp del]

section \<open>Exceptions\<close>

text \<open>
  Everything the client or the platform throws is an object with a name and a message;
  all of them are instances of \<open>Error\<close>.
\<close>

datatype errname = Error | TypeError | RangeError | URIError | DOMException

datatype exn = Exn errname string

fun message :: "exn \<Rightarrow> string" where
  "message (Exn n m) = m"

section \<open>The platform's URL class\<close>

text \<open>
  \<open>new URL(input, base)\<close>, \<open>pathname\<close>, \<open>origin\<close>, \<open>href\<close> and the three setters the
  constructor uses are the platform's (the WHATWG URL Standard), not the repository's. They
  are modelled after the standard's basic URL parser, written as functions over the rest of
  the input instead of a pointer: each state consumes its part of the input and hands the
  rest to the next state. Host parsing (domain to ASCII, IPv4 and IPv6 literals, opaque
  hosts) is a parameter of the model: \<open>hp isOpaque input\<close> is the serialized host, or
  \<open>None\<close> where the standard returns failure.
\<close>

datatype url_path = Opaque string | Segments "string list"

record url =
  url_scheme :: string
  url_username :: string
  url_password :: string
  url_host :: "string option"
  url_port :: "nat option"
  url_path :: url_path
  url_query :: "string option"
  url_fragment :: "string option"

type_synonym host_parser = "bool \<Rightarrow> string \<Rightarrow> string option"

definition emptyURL :: url where
  "emptyURL = \<lparr>url_scheme = [], url_username = [], url_password = [], url_host = None, url_port = None,
     url_path = Segments [], url_query = None, url_fragment = None\<rparr>"

definition isSpecial :: "string \<Rightarrow> bool" where
  "isSpecial sch = (sch \<in> set [''ftp'', ''file'', ''http'', ''https'', ''ws'', ''wss''])"

definition defaultPort :: "string \<Rightarrow> nat option" where
  "defaultPort sch =
     map_of [(''ftp'', 21), (''http'', 80), (''https'', 443), (''ws'', 80), (''wss'', 443)] sch"

subsection \<open>Percent-encode sets\<close>

definition hexUpper :: string where
  "hexUpper = ''0123456789ABCDEF''"

definition percentEncodeByte :: "char \<Rightarrow> string" where
  "percentEncodeByte c =
     (let n = (of_char c :: nat) in [CHR ''%'', hexUpper ! (n div 16), hexUpper ! (n mod 16)])"

definition inC0ControlSet :: "char \<Rightarrow> bool" where
  "inC0ControlSet c = (let n = (of_char c :: nat) in n < 0x20 \<or> 0x7E < n)"

definition inFragmentSet :: "char \<Rightarrow> bool" where
  "inFragmentSet c =
     (inC0ControlSet c \<or> c \<in> set [CHR 0x20, CHR 0x22, CHR ''<'', CHR ''>'', CHR 0x60])"

definition inQuerySet :: "char \<Rightarrow> bool" where
  "inQuerySet c =
     (inC0ControlSet c \<or> c \<in> set [CHR 0x20, CHR 0x22, CHR ''#'', CHR ''<'', CHR ''>''])"

definition inSpecialQuerySet :: "char \<Rightarrow> bool" where
  "inSpecialQuerySet c = (inQuerySet c \<or> c = CHR 0x27)"

definition inPathSet :: "char \<Rightarrow> bool" where
  "inPathSet c =
     (inQuerySet c \<or> c \<in> set [CHR ''?'', CHR ''^'', CHR 0x60, CHR ''{'', CHR ''}''])"

definition inUserinfoSet :: "char \<Rightarrow> bool" where
  "inUserinfoSet c =
     (inPathSet c \<or>
      c \<in> set [CHR ''/'', CHR '':'', CHR '';'', CHR ''='', CHR ''@'', CHR ''['', CHR 0x5C,
                CHR '']'', CHR ''|''])"

text \<open>
  UTF-8 percent-encoding of one character is done byte by byte: every byte of a multi-byte
  UTF-8 sequence is above \<open>0x7E\<close> and therefore in every percent-encode set.
\<close>

definition utf8PercentEncode :: "(char \<Rightarrow> bool) \<Rightarrow> char \<Rightarrow> string" where
  "utf8PercentEncode encodeSet c = (if encodeSet c then percentEncodeByte c else [c])"

definition percentEncodeString :: "(char \<Rightarrow> bool) \<Rightarrow> string \<Rightarrow> string" where
  "percentEncodeString encodeSet s = concat (map (utf8PercentEncode encodeSet) s)"

subsection \<open>Input preparation and the scheme\<close>

definition isC0OrSpace :: "char \<Rightarrow> bool" where
  "isC0OrSpace c = ((of_char c :: nat) \<le> 0x20)"

definition isTabOrNewline :: "char \<Rightarrow> bool" where
  "isTabOrNewline c = (c \<in> set [CHR 0x09, CHR 0x0A, CHR 0x0D])"

definition preprocess :: "string \<Rightarrow> string" where
  "preprocess s =
     filter (\<lambda>c. \<not> isTabOrNewline c)
       (rev (dropWhile isC0OrSpace (rev (dropWhile isC0OrSpace s))))"

definition isSchemeChar :: "char \<Rightarrow> bool" where
  "isSchemeChar c = (isAlpha c \<or> isDigit c \<or> c \<in> set [CHR ''+'', CHR ''-'', CHR ''.''])"

text \<open>
  Scheme start state and scheme state: a letter, then letters, digits, \<open>+\<close>, \<open>-\<close>, \<open>.\<close>,
  then a colon. The result is the lower-cased scheme and the input after the colon; \<open>None\<close>
  sends the parser to the no scheme state with the whole input.
\<close>

definition parseScheme :: "string \<Rightarrow> (string \<times> string) option" where
  "parseScheme s =
     (case s of
        [] \<Rightarrow> None
      | c # cs \<Rightarrow>
          if isAlpha c then
            (case dropWhile isSchemeChar cs of
               [] \<Rightarrow> None
             | d # r \<Rightarrow>
                 if d = CHR '':'' then Some (toLowerCase (c # takeWhile isSchemeChar cs), r)
                 else None)
          else None)"

subsection \<open>Query and fragment states\<close>

definition fragmentState :: "url \<Rightarrow> string \<Rightarrow> url" where
  "fragmentState u r = u\<lparr>url_fragment := Some (percentEncodeString inFragmentSet r)\<rparr>"

definition queryState :: "url \<Rightarrow> string \<Rightarrow> url" where
  "queryState u r =
     (let q = takeWhile (\<lambda>c. c \<noteq> CHR ''#'') r;
          rest = dropWhile (\<lambda>c. c \<noteq> CHR ''#'') r;
          encodeSet = (if isSpecial (url_scheme u) then inSpecialQuerySet else inQuerySet);
          u' = u\<lparr>url_query := Some (percentEncodeString encodeSet q)\<rparr>
      in case rest of [] \<Rightarrow> u' | _ # f \<Rightarrow> fragmentState u' f)"

text \<open>What follows a path: nothing, a query (\<open>?\<close>) or a fragment (\<open>#\<close>).\<close>

definition afterPath :: "url \<Rightarrow> string \<Rightarrow> url" where
  "afterPath u r =
     (case r of
        [] \<Rightarrow> u
      | c # cs \<Rightarrow> if c = CHR ''?'' then queryState u cs else fragmentState u cs)"

subsection \<open>Path state\<close>

definition isSingleDot :: "string \<Rightarrow> bool" where
  "isSingleDot b = (toLowerCase b \<in> set [''.'', ''%2e''])"

definition isDoubleDot :: "string \<Rightarrow> bool" where
  "isDoubleDot b = (toLowerCase b \<in> set [''..'', ''.%2e'', ''%2e.'', ''%2e%2e''])"

definition isWindowsDriveLetter :: "string \<Rightarrow> bool" where
  "isWindowsDriveLetter s =
     (case s of [a, b] \<Rightarrow> isAlpha a \<and> (b = CHR '':'' \<or> b = CHR ''|'') | _ \<Rightarrow> False)"

definition isNormalizedWindowsDriveLetter :: "string \<Rightarrow> bool" where
  "isNormalizedWindowsDriveLetter s =
     (case s of [a, b] \<Rightarrow> isAlpha a \<and> b = CHR '':'' | _ \<Rightarrow> False)"

definition startsWithWindowsDriveLetter :: "string \<Rightarrow> bool" where
  "startsWithWindowsDriveLetter s =
     (case s of
        a # b # rest \<Rightarrow>
          isWindowsDriveLetter [a, b] \<and>
          (case rest of
             [] \<Rightarrow> True
           | c # _ \<Rightarrow> c \<in> set [CHR ''/'', CHR 0x5C, CHR ''?'', CHR ''#''])
      | _ \<Rightarrow> False)"

definition shorten :: "string \<Rightarrow> string list \<Rightarrow> string list" where
  "shorten sch p =
     (if sch = ''file'' \<and> length p = 1 \<and> isNormalizedWindowsDriveLetter (hd p) then p
      else butlast p)"

text \<open>
  The end of a path segment: \<open>slash\<close> tells whether the segment ended at a separator
  (\<open>/\<close>, or \<open>\\<close> in a special URL) rather than at \<open>?\<close>, \<open>#\<close> or the end of the input.
\<close>

definition finishSegment :: "string \<Rightarrow> string list \<Rightarrow> string \<Rightarrow> bool \<Rightarrow> string list" where
  "finishSegment sch p buf slash =
     (if isDoubleDot buf then (if slash then shorten sch p else shorten sch p @ [[]])
      else if isSingleDot buf then (if slash then p else p @ [[]])
      else p @ [if sch = ''file'' \<and> p = [] \<and> isWindowsDriveLetter buf
                then [hd buf, CHR '':''] else buf])"

text \<open>
  \<open>pathState sch ov p buf input\<close>: \<open>p\<close> is the path so far, \<open>buf\<close> the segment being read;
  \<open>ov\<close> is set when the parser runs for the \<open>pathname\<close> setter (a state override), where
  \<open>?\<close> and \<open>#\<close> do not end the path. The result is the path and the unread input.
\<close>

fun pathState :: "string \<Rightarrow> bool \<Rightarrow> string list \<Rightarrow> string \<Rightarrow> string \<Rightarrow> string list \<times> string" where
  "pathState sch ov p buf [] = (finishSegment sch p buf False, [])"
| "pathState sch ov p buf (c # cs) =
     (if c = CHR ''/'' \<or> (isSpecial sch \<and> c = CHR 0x5C)
      then pathState sch ov (finishSegment sch p buf True) [] cs
      else if \<not> ov \<and> (c = CHR ''?'' \<or> c = CHR ''#'')
      then (finishSegment sch p buf False, c # cs)
      else pathState sch ov p (buf @ utf8PercentEncode inPathSet c) cs)"

definition pathFrom :: "url \<Rightarrow> string list \<Rightarrow> string \<Rightarrow> string \<Rightarrow> url" where
  "pathFrom u p buf r =
     (case pathState (url_scheme u) False p buf r of
        (p', rest) \<Rightarrow> afterPath (u\<lparr>url_path := Segments p'\<rparr>) rest)"

definition isSlashChar :: "char \<Rightarrow> bool" where
  "isSlashChar c = (c = CHR ''/'' \<or> c = CHR 0x5C)"

definition pathStartState :: "url \<Rightarrow> string \<Rightarrow> url" where
  "pathStartState u r =
     (if isSpecial (url_scheme u) then
        (case r of
           [] \<Rightarrow> pathFrom u [] [] r
         | c # cs \<Rightarrow> if isSlashChar c then pathFrom u [] [] cs else pathFrom u [] [] r)
      else
        (case r of
           [] \<Rightarrow> u
         | c # cs \<Rightarrow>
             if c = CHR ''?'' then queryState u cs
             else if c = CHR ''#'' then fragmentState u cs
             else if c = CHR ''/'' then pathFrom u [] [] cs
             else pathFrom u [] [] r))"

definition opaquePathState :: "url \<Rightarrow> string \<Rightarrow> url" where
  "opaquePathState u r =
     (let stop = (\<lambda>c. c = CHR ''?'' \<or> c = CHR ''#'');
          p = takeWhile (\<lambda>c. \<not> stop c) r;
          rest = dropWhile (\<lambda>c. \<not> stop c) r
      in afterPath (u\<lparr>url_path := Opaque (percentEncodeString inC0ControlSet p)\<rparr>) rest)"

subsection \<open>Authority, host and port states\<close>

text \<open>
  The host ends at the first colon outside square brackets; what follows the colon is the
  port.
\<close>

fun hostPortSplit :: "bool \<Rightarrow> string \<Rightarrow> string \<Rightarrow> string \<times> string option" where
  "hostPortSplit inside buf [] = (buf, None)"
| "hostPortSplit inside buf (c # cs) =
     (if c = CHR '':'' \<and> \<not> inside then (buf, Some cs)
      else hostPortSplit
             (if c = CHR ''['' then True else if c = CHR '']'' then False else inside)
             (buf @ [c]) cs)"

definition digitValue :: "char \<Rightarrow> int" where
  "digitValue c = (of_char c :: int) - 48"

definition decimalValue :: "string \<Rightarrow> int" where
  "decimalValue s = foldl (\<lambda>n c. 10 * n + digitValue c) 0 s"

definition hostState :: "host_parser \<Rightarrow> url \<Rightarrow> string \<Rightarrow> string \<Rightarrow> url option" where
  "hostState hp u hostport rest =
     (case hostPortSplit False [] hostport of
        (buf, Some ps) \<Rightarrow>
          if buf = [] then None
          else
            (case hp (\<not> isSpecial (url_scheme u)) buf of
               None \<Rightarrow> None
             | Some h \<Rightarrow>
                 if \<not> list_all isDigit ps then None
                 else if ps = [] then Some (pathStartState (u\<lparr>url_host := Some h\<rparr>) rest)
                 else if 65535 < decimalValue ps then None
                 else Some (pathStartState
                        (u\<lparr>url_host := Some h,
                           url_port :=
                             (if defaultPort (url_scheme u) = Some (nat (decimalValue ps))
                              then None else Some (nat (decimalValue ps)))\<rparr>) rest))
      | (buf, None) \<Rightarrow>
          if isSpecial (url_scheme u) \<and> buf = [] then None
          else
            (case hp (\<not> isSpecial (url_scheme u)) buf of
               None \<Rightarrow> None
             | Some h \<Rightarrow> Some (pathStartState (u\<lparr>url_host := Some h\<rparr>) rest)))"

definition isAuthorityEnd :: "string \<Rightarrow> char \<Rightarrow> bool" where
  "isAuthorityEnd sch c =
     (c \<in> set [CHR ''/'', CHR ''?'', CHR ''#''] \<or> (isSpecial sch \<and> c = CHR 0x5C))"

text \<open>
  The authority runs to the first \<open>/\<close>, \<open>?\<close>, \<open>#\<close> (or \<open>\\<close> in a special URL). Its last \<open>@\<close>
  separates credentials from host and port; the credentials are split at their first colon
  and percent-encoded with the userinfo set, which turns every earlier \<open>@\<close> into \<open>%40\<close>.
\<close>

definition authorityState :: "host_parser \<Rightarrow> url \<Rightarrow> string \<Rightarrow> url option" where
  "authorityState hp u r =
     (let auth = takeWhile (\<lambda>c. \<not> isAuthorityEnd (url_scheme u) c) r;
          rest = dropWhile (\<lambda>c. \<not> isAuthorityEnd (url_scheme u) c) r
      in if CHR ''@'' \<in> set auth then
           (let hostport = rev (takeWhile (\<lambda>c. c \<noteq> CHR ''@'') (rev auth));
                userinfo = take (length auth - length hostport - 1) auth;
                name = takeWhile (\<lambda>c. c \<noteq> CHR '':'') userinfo;
                pass = drop 1 (dropWhile (\<lambda>c. c \<noteq> CHR '':'') userinfo)
            in if hostport = [] then None
               else hostState hp
                      (u\<lparr>url_username := percentEncodeString inUserinfoSet name,
                         url_password := percentEncodeString inUserinfoSet pass\<rparr>)
                      hostport rest)
         else hostState hp u auth rest)"

subsection \<open>Relative and file states\<close>

definition relativeSlashState :: "host_parser \<Rightarrow> url \<Rightarrow> url \<Rightarrow> string \<Rightarrow> url option" where
  "relativeSlashState hp u b r =
     (case r of
        [] \<Rightarrow>
          Some (pathFrom (u\<lparr>url_username := url_username b, url_password := url_password b,
                            url_host := url_host b, url_port := url_port b\<rparr>) [] [] r)
      | c # cs \<Rightarrow>
          if isSpecial (url_scheme u) \<and> isSlashChar c
          then authorityState hp u (dropWhile isSlashChar cs)
          else if c = CHR ''/'' then authorityState hp u cs
          else Some (pathFrom (u\<lparr>url_username := url_username b,
                                 url_password := url_password b,
                                 url_host := url_host b, url_port := url_port b\<rparr>) [] [] r))"

definition copyBase :: "url \<Rightarrow> url \<Rightarrow> url" where
  "copyBase u b =
     u\<lparr>url_username := url_username b, url_password := url_password b, url_host := url_host b,
       url_port := url_port b, url_path := url_path b, url_query := url_query b\<rparr>"

definition relativeState :: "host_parser \<Rightarrow> url \<Rightarrow> string \<Rightarrow> url option" where
  "relativeState hp b r =
     (let u = emptyURL\<lparr>url_scheme := url_scheme b\<rparr> in
      case r of
        [] \<Rightarrow> Some (copyBase u b)
      | c # cs \<Rightarrow>
          if c = CHR ''/'' \<or> (isSpecial (url_scheme b) \<and> c = CHR 0x5C)
          then relativeSlashState hp u b cs
          else if c = CHR ''?'' then Some (queryState (copyBase u b) cs)
          else if c = CHR ''#'' then Some (fragmentState (copyBase u b) cs)
          else
            (case url_path b of
               Opaque _ \<Rightarrow> None
             | Segments bp \<Rightarrow>
                 Some (pathFrom ((copyBase u b)\<lparr>url_query := None\<rparr>)
                         (shorten (url_scheme b) bp) [] r)))"

definition isFileHostEnd :: "char \<Rightarrow> bool" where
  "isFileHostEnd c = (c \<in> set [CHR ''/'', CHR 0x5C, CHR ''?'', CHR ''#''])"

definition fileHostState :: "host_parser \<Rightarrow> url \<Rightarrow> string \<Rightarrow> url option" where
  "fileHostState hp u r =
     (let buf = takeWhile (\<lambda>c. \<not> isFileHostEnd c) r;
          rest = dropWhile (\<lambda>c. \<not> isFileHostEnd c) r
      in if isWindowsDriveLetter buf then Some (pathFrom u [] buf rest)
         else if buf = [] then Some (pathStartState (u\<lparr>url_host := Some []\<rparr>) rest)
         else
           (case hp False buf of
              None \<Rightarrow> None
            | Some h \<Rightarrow>
                Some (pathStartState
                        (u\<lparr>url_host := Some (if h = ''localhost'' then [] else h)\<rparr>) rest)))"

definition fileBase :: "url option \<Rightarrow> url option" where
  "fileBase base =
     (case base of
        None \<Rightarrow> None
      | Some b \<Rightarrow> if url_scheme b = ''file'' then Some b else None)"

definition fileSlashState :: "host_parser \<Rightarrow> url option \<Rightarrow> url \<Rightarrow> string \<Rightarrow> url option" where
  "fileSlashState hp base u r =
     (case r of
        c # cs \<Rightarrow> if isSlashChar c then fileHostState hp u cs
                  else
                    (case fileBase base of
                       None \<Rightarrow> Some (pathFrom u [] [] r)
                     | Some b \<Rightarrow>
                         Some (pathFrom (u\<lparr>url_host := url_host b\<rparr>)
                           (case url_path b of
                              Segments (x # xs) \<Rightarrow>
                                if \<not> startsWithWindowsDriveLetter r
                                   \<and> isNormalizedWindowsDriveLetter x then [x] else []
                            | _ \<Rightarrow> []) [] r))
      | [] \<Rightarrow>
          (case fileBase base of
             None \<Rightarrow> Some (pathFrom u [] [] r)
           | Some b \<Rightarrow>
               Some (pathFrom (u\<lparr>url_host := url_host b\<rparr>)
                 (case url_path b of
                    Segments (x # xs) \<Rightarrow> if isNormalizedWindowsDriveLetter x then [x] else []
                  | _ \<Rightarrow> []) [] r)))"

definition fileState :: "host_parser \<Rightarrow> url option \<Rightarrow> string \<Rightarrow> url option" where
  "fileState hp base r =
     (let u = emptyURL\<lparr>url_scheme := ''file'', url_host := Some []\<rparr> in
      case r of
        c # cs \<Rightarrow>
          if isSlashChar c then fileSlashState hp base u cs
          else
            (case fileBase base of
               None \<Rightarrow> Some (pathFrom u [] [] r)
             | Some b \<Rightarrow>
                 (let u' = u\<lparr>url_host := url_host b, url_path := url_path b,
                            url_query := url_query b\<rparr> in
                  if c = CHR ''?'' then Some (queryState u' cs)
                  else if c = CHR ''#'' then Some (fragmentState u' cs)
                  else
                    (case url_path b of
                       Opaque _ \<Rightarrow> None
                     | Segments bp \<Rightarrow>
                         Some (pathFrom (u'\<lparr>url_query := None\<rparr>)
                                 (if startsWithWindowsDriveLetter r then []
                                  else shorten ''file'' bp) [] r))))
      | [] \<Rightarrow>
          (case fileBase base of
             None \<Rightarrow> Some (pathFrom u [] [] r)
           | Some b \<Rightarrow>
               Some (u\<lparr>url_host := url_host b, url_path := url_path b,
                       url_query := url_query b\<rparr>)))"

subsection \<open>The basic URL parser and the constructor\<close>

definition noSchemeState :: "host_parser \<Rightarrow> url option \<Rightarrow> string \<Rightarrow> url option" where
  "noSchemeState hp base s =
     (case base of
        None \<Rightarrow> None
      | Some b \<Rightarrow>
          (case url_path b of
             Opaque _ \<Rightarrow>
               (case s of
                  [] \<Rightarrow> None
                | c # cs \<Rightarrow>
                    if c = CHR ''#''
                    then Some (fragmentState
                           (emptyURL\<lparr>url_scheme := url_scheme b, url_path := url_path b,
                              url_query := url_query b\<rparr>) cs)
                    else None)
           | Segments _ \<Rightarrow>
               if url_scheme b \<noteq> ''file'' then relativeState hp b s else fileState hp base s))"

definition basicParse :: "host_parser \<Rightarrow> string \<Rightarrow> url option \<Rightarrow> url option" where
  "basicParse hp input base =
     (let s = preprocess input in
      case parseScheme s of
        None \<Rightarrow> noSchemeState hp base s
      | Some (sch, r) \<Rightarrow>
          (let u = emptyURL\<lparr>url_scheme := sch\<rparr> in
           if sch = ''file'' then fileState hp base r
           else if isSpecial sch then
             (case base of
                None \<Rightarrow> authorityState hp u (dropWhile isSlashChar r)
              | Some b \<Rightarrow>
                  if url_scheme b = sch then
                    (if startsWith r ''//''
                     then authorityState hp u (dropWhile isSlashChar (drop 2 r))
                     else relativeState hp b r)
                  else authorityState hp u (dropWhile isSlashChar r))
           else
             (case r of
                [] \<Rightarrow> Some (opaquePathState u r)
              | c # cs \<Rightarrow>
                  if c = CHR ''/'' then
                    (case cs of
                       [] \<Rightarrow> Some (pathFrom u [] [] cs)
                     | d # ds \<Rightarrow>
                         if d = CHR ''/'' then authorityState hp u ds
                         else Some (pathFrom u [] [] cs))
                  else Some (opaquePathState u r))))"

text \<open>\<open>new URL(input)\<close> and \<open>new URL(input, base)\<close>: a \<open>TypeError\<close> where parsing fails.\<close>

definition invalidURL :: exn where
  "invalidURL = Exn TypeError ''Invalid URL''"

definition URL_new :: "host_parser \<Rightarrow> string \<Rightarrow> string option \<Rightarrow> exn + url" where
  "URL_new hp input base =
     (case base of
        None \<Rightarrow>
          (case basicParse hp input None of None \<Rightarrow> Inl invalidURL | Some u \<Rightarrow> Inr u)
      | Some b \<Rightarrow>
          (case basicParse hp b None of
             None \<Rightarrow> Inl invalidURL
           | Some bu \<Rightarrow>
               (case basicParse hp input (Some bu) of
                  None \<Rightarrow> Inl invalidURL
                | Some u \<Rightarrow> Inr u)))"

subsection \<open>Getters, serializer and setters\<close>

definition pathname :: "url \<Rightarrow> string" where
  "pathname u =
     (case url_path u of
        Opaque s \<Rightarrow> s
      | Segments segs \<Rightarrow> concat (map (\<lambda>s. CHR ''/'' # s) segs))"

definition href :: "url \<Rightarrow> string" where
  "href u =
     url_scheme u @ '':'' @
     (case url_host u of
        Some h \<Rightarrow>
          ''//'' @
          (if url_username u \<noteq> [] \<or> url_password u \<noteq> []
           then url_username u @
                (if url_password u \<noteq> [] then '':'' @ url_password u else []) @ ''@''
           else []) @
          h @ (case url_port u of None \<Rightarrow> [] | Some n \<Rightarrow> '':'' @ showNat n)
      | None \<Rightarrow>
          (case url_path u of
             Segments (x # y # zs) \<Rightarrow> if x = [] then ''/.'' else []
           | _ \<Rightarrow> [])) @
     pathname u @
     (case url_query u of None \<Rightarrow> [] | Some q \<Rightarrow> ''?'' @ q) @
     (case url_fragment u of None \<Rightarrow> [] | Some f \<Rightarrow> ''#'' @ f)"

definition tupleOrigin :: "url \<Rightarrow> string" where
  "tupleOrigin u =
     url_scheme u @ ''://'' @ (case url_host u of None \<Rightarrow> [] | Some h \<Rightarrow> h) @
     (case url_port u of None \<Rightarrow> [] | Some n \<Rightarrow> '':'' @ showNat n)"

text \<open>
  \<open>url.origin\<close>: the serialized tuple origin for \<open>http\<close>, \<open>https\<close>, \<open>ftp\<close>, \<open>ws\<close> and \<open>wss\<close>;
  the origin of the embedded URL for \<open>blob\<close>; the string \<open>null\<close> for everything else.
\<close>

definition origin :: "host_parser \<Rightarrow> url \<Rightarrow> string" where
  "origin hp u =
     (if url_scheme u \<in> set [''http'', ''https'', ''ftp'', ''ws'', ''wss''] then tupleOrigin u
      else if url_scheme u = ''blob'' then
        (case basicParse hp (pathname u) None of
           None \<Rightarrow> ''null''
         | Some pu \<Rightarrow>
             if url_scheme pu \<in> set [''http'', ''https''] then tupleOrigin pu else ''null'')
      else ''null'')"

text \<open>
  \<open>url.hash = ""\<close> followed by \<open>url.search = ""\<close>: fragment and query become null; with both
  null, trailing spaces of an opaque path are removed.
\<close>

definition clearHashAndSearch :: "url \<Rightarrow> url" where
  "clearHashAndSearch u =
     u\<lparr>url_fragment := None, url_query := None,
       url_path := (case url_path u of
                  Opaque s \<Rightarrow> Opaque (rev (dropWhile (\<lambda>c. c = CHR 0x20) (rev s)))
                | Segments segs \<Rightarrow> Segments segs)\<rparr>"

text \<open>
  \<open>url.pathname = value\<close>: nothing for an opaque path; otherwise the path is emptied and
  \<open>value\<close> is parsed from the path start state with a state override.
\<close>

definition setPathname :: "url \<Rightarrow> string \<Rightarrow> url" where
  "setPathname u v =
     (case url_path u of
        Opaque _ \<Rightarrow> u
      | Segments _ \<Rightarrow>
          (let s = filter (\<lambda>c. \<not> isTabOrNewline c) v;
               start = (case s of
                          [] \<Rightarrow> s
                        | c # cs \<Rightarrow>
                            if c = CHR ''/'' \<or> (isSpecial (url_scheme u) \<and> c = CHR 0x5C) then cs
                            else s)
           in if s = [] \<and> \<not> isSpecial (url_scheme u)
              then u\<lparr>url_path := Segments (if url_host u = None then [[]] else [])\<rparr>
              else u\<lparr>url_path := Segments (fst (pathState (url_scheme u) True [] [] start))\<rparr>))"

text \<open>
  A host parser for concrete examples: it accepts non-empty names of lower-case ASCII
  letters and dots, on which the standard's host parser is the identity, and rejects
  everything else.
\<close>

definition plainHost :: host_parser where
  "plainHost isOpaque s =
     (if s \<noteq> [] \<and> list_all (\<lambda>c. c \<in> set asciiLower \<or> c = CHR ''.'') s then Some s else None)"

section \<open>The client: construction and path resolution\<close>

text \<open>
  What the client takes from its surroundings: the transport (\<open>fetch\<close>, which answers a
  request with a response or rejects), the platform's host parser, whether
  \<open>globalThis.btoa\<close> is a function, and the platform's text decoder.
\<close>

type_synonym headers = "string \<rightharpoonup> string"

record request =
  req_method :: string
  req_url :: string
  req_headers :: headers
  req_body :: "string option"

record response =
  status :: nat
  statusText :: string
  body :: string

record env =
  fetch :: "request \<Rightarrow> exn + response"
  hostParser :: host_parser
  hasBtoa :: bool
  textDecoder :: "string \<Rightarrow> string \<Rightarrow> exn + string"

record WebDAVClientOptions =
  baseURL :: string
  username :: "string option"
  password :: "string option"
  headers :: "headers option"

record WebDAVClient =
  base :: url
  basePath :: string
  authHeader :: "string option"
  customHeaders :: headers

subsection \<open>Base64\<close>

definition BASE64_ALPHABET :: string where
  "BASE64_ALPHABET = ''ABCDEFGHIJKLMNOPQRSTUVWXYZabcdefghijklmnopqrstuvwxyz0123456789+/''"

text \<open>\<open>bytes[i] ?? 0\<close>\<close>

definition byteAt :: "string \<Rightarrow> nat \<Rightarrow> 32 word" where
  "byteAt bytes i = (if i < length bytes then of_nat (of_char (bytes ! i)) else 0)"

text \<open>One turn of the outer loop of \<open>toBase64\<close>: the four characters for the bytes at \<open>index\<close>.\<close>

definition base64Group :: "string \<Rightarrow> nat \<Rightarrow> string" where
  "base64Group bytes index =
     (let byte0 = byteAt bytes index;
          byte1 = byteAt bytes (index + 1);
          byte2 = byteAt bytes (index + 2);
          combined = (push_bit 16 byte0) OR (push_bit 8 byte1) OR byte2;
          remaining = length bytes - index;
          padding = (if 3 \<le> remaining then 0 else 3 - remaining)
      in map (\<lambda>offset.
                if 4 - padding \<le> offset then CHR ''=''
                else BASE64_ALPHABET ! unat ((drop_bit (18 - offset * 6) combined) AND 63))
             [0, 1, 2, 3])"

function base64From :: "string \<Rightarrow> nat \<Rightarrow> string" where
  "base64From bytes index =
     (if index < length bytes then base64Group bytes index @ base64From bytes (index + 3)
      else [])"
  by pat_completeness auto
termination
  by (relation "measure (\<lambda>(bytes, index). length bytes - index)") auto

declare base64From.simps [simp del]

text \<open>
  \<open>btoa\<close> takes a string of code points up to U+00FF, one byte each, and throws on any other
  character. \<open>latin1\<close> reads those bytes off the UTF-8 representation.
\<close>

fun latin1 :: "string \<Rightarrow> string option" where
  "latin1 [] = Some []"
| "latin1 [a] = (if (of_char a :: nat) < 0x80 then Some [a] else None)"
| "latin1 (a # b # s) =
     (if (of_char a :: nat) < 0x80 then map_option (\<lambda>r. a # r) (latin1 (b # s))
      else if (a = CHR 0xC2 \<or> a = CHR 0xC3) \<and> 0x80 \<le> (of_char b :: nat) \<and> (of_char b :: nat) < 0xC0
      then map_option (\<lambda>r. (if a = CHR 0xC2 then b else char_of ((of_char b :: nat) + 0x40)) # r)
             (latin1 s)
      else None)"

definition btoa :: "string \<Rightarrow> exn + string" where
  "btoa v =
     (case latin1 v of
        None \<Rightarrow> Inl (Exn DOMException ''Invalid character'')
      | Some bytes \<Rightarrow> Inr (base64From bytes 0))"

definition toBase64 :: "env \<Rightarrow> string \<Rightarrow> exn + string" where
  "toBase64 env v = (if hasBtoa env then btoa v else Inr (base64From v 0))"

subsection \<open>Constructor\<close>

definition constructor :: "env \<Rightarrow> WebDAVClientOptions \<Rightarrow> exn + WebDAVClient" where
  "constructor env options =
     (if baseURL options = [] then Inl (Exn Error ''baseURL is required'')
      else
        (case URL_new (hostParser env) (baseURL options) None of
           Inl e \<Rightarrow> Inl e
         | Inr parsed \<Rightarrow>
             (let cleared = clearHashAndSearch parsed;
                  b = (if \<not> endsWith (pathname cleared) ''/''
                       then setPathname cleared (pathname cleared @ ''/'') else cleared);
                  stripped = stripTrailingSlashes (pathname b);
                  bp = (if stripped = [] then ''/'' else stripped);
                  custom = (case headers options of None \<Rightarrow> Map.empty | Some h \<Rightarrow> h)
              in case (username options, password options) of
                   (Some user, Some pass) \<Rightarrow>
                     (case toBase64 env (user @ '':'' @ pass) of
                        Inl e \<Rightarrow> Inl e
                      | Inr credentials \<Rightarrow>
                          Inr \<lparr>base = b, basePath = bp,
                               authHeader = Some (''Basic '' @ credentials),
                               customHeaders = custom\<rparr>)
                 | _ \<Rightarrow>
                     Inr \<lparr>base = b, basePath = bp, authHeader = None,
                          customHeaders = custom\<rparr>)))"

subsection \<open>Path resolver\<close>

text \<open>The test \<open>/^[a-zA-Z][a-zA-Z\d+.-]*:/\<close>.\<close>

definition hasSchemePrefix :: "string \<Rightarrow> bool" where
  "hasSchemePrefix p =
     (case p of
        [] \<Rightarrow> False
      | c # cs \<Rightarrow>
          isAlpha c \<and>
          (case dropWhile isSchemeChar cs of [] \<Rightarrow> False | d # _ \<Rightarrow> d = CHR '':''))"

definition resolveURL :: "env \<Rightarrow> WebDAVClient \<Rightarrow> string \<Rightarrow> exn + url" where
  "resolveURL env c p =
     (if hasSchemePrefix p then URL_new (hostParser env) p None
      else if startsWith p ''/''
      then URL_new (hostParser env) p (Some (origin (hostParser env) (base c)))
      else URL_new (hostParser env) p (Some (href (base c))))"

definition resolveRequestURL :: "env \<Rightarrow> WebDAVClient \<Rightarrow> string \<Rightarrow> exn + url" where
  "resolveRequestURL env c p =
     (if hasSchemePrefix p then URL_new (hostParser env) p None
      else
        (let relative = (if startsWith p ''/'' then drop 1 p else p)
         in URL_new (hostParser env) relative (Some (href (base c)))))"

text \<open>\<open>try { ... } catch { ... }\<close>: the handler runs where the body throws.\<close>

definition tryCatch :: "exn + 'a \<Rightarrow> (exn + 'a) \<Rightarrow> exn + 'a" where
  "tryCatch attempt handler = (case attempt of Inl e \<Rightarrow> handler | Inr v \<Rightarrow> Inr v)"

definition normalizePath :: "env \<Rightarrow> WebDAVClient \<Rightarrow> string \<Rightarrow> exn + string" where
  "normalizePath env c p =
     tryCatch
       (case resolveURL env c p of
          Inl e \<Rightarrow> Inl e
        | Inr u \<Rightarrow>
            (let pathname0 = pathname u;
                 pathname1 =
                   (if basePath c \<noteq> ''/'' \<and>
                       (pathname0 = basePath c \<or> startsWith pathname0 (basePath c @ ''/''))
                    then drop (length (basePath c)) pathname0 else pathname0);
                 pathname2 = stripTrailingSlashes pathname1
             in if pathname2 = [] then Inr ''/''
                else if \<not> startsWith pathname2 ''/'' then Inr (CHR ''/'' # pathname2)
                else Inr pathname2))
       (let ensured = (if startsWith p ''/'' then p else CHR ''/'' # p);
            trimmed = stripTrailingSlashes ensured
        in Inr (if trimmed = [] then ''/'' else trimmed))"

section \<open>Multi-status parser\<close>

subsection \<open>Tag extraction\<close>

text \<open>
  \<open>getTagContent\<close>, \<open>getAllTagContents\<close> and \<open>hasTag\<close> search with the regular expression
  \<open><[^:>]*:?TAG[^>]*>([\s\S]*?)</[^:>]*:?TAG>\<close> (flag \<open>i\<close>). No part of the opening tag can
  match \<open>>\<close>, so an opening tag that starts at a \<open><\<close> ends at the first \<open>>\<close> after it, and the
  text between the two has to match \<open>[^:>]*:?TAG[^>]*\<close> (\<open>openMatch\<close>). Likewise a closing tag
  that starts at \<open></\<close> ends at the first \<open>>\<close> after it, and the text between has to match
  \<open>[^:>]*:?TAG\<close> (\<open>closeMatch\<close>). The engine takes the leftmost opening tag; the lazy group
  then ends at the first closing tag after it. If there is none, no later start can match
  either, because a later opening tag ends no earlier.
\<close>

text \<open>
  Flag \<open>i\<close>: two characters match when they are equal or differ only in the case of an
  ASCII letter. \<open>ciEqual a b\<close>: the strings match as a whole; \<open>ciPrefix tag s\<close>: \<open>s\<close> starts
  with a match of \<open>tag\<close>.
\<close>

definition ciEqualChar :: "char \<Rightarrow> char \<Rightarrow> bool" where
  "ciEqualChar a b = (if a = b then True else toLowerChar a = toLowerChar b)"

fun ciEqual :: "string \<Rightarrow> string \<Rightarrow> bool" where
  "ciEqual [] [] = True"
| "ciEqual (a # as) (b # bs) = (if ciEqualChar a b then ciEqual as bs else False)"
| "ciEqual [] (b # bs) = False"
| "ciEqual (a # as) [] = False"

fun ciPrefix :: "string \<Rightarrow> string \<Rightarrow> bool" where
  "ciPrefix [] s = True"
| "ciPrefix (t # ts) [] = False"
| "ciPrefix (t # ts) (c # cs) = (if ciEqualChar t c then ciPrefix ts cs else False)"

fun openMatch :: "string \<Rightarrow> string \<Rightarrow> bool" where
  "openMatch tag [] = ciPrefix tag []"
| "openMatch tag (c # cs) =
     (ciPrefix tag (c # cs) \<or> (if c = CHR '':'' then ciPrefix tag cs else openMatch tag cs))"

fun closeMatch :: "string \<Rightarrow> string \<Rightarrow> bool" where
  "closeMatch tag [] = ciEqual [] tag"
| "closeMatch tag (c # cs) =
     (ciEqual (c # cs) tag \<or> (if c = CHR '':'' then ciEqual cs tag else closeMatch tag cs))"

text \<open>The text up to the first \<open>>\<close> and the text after it.\<close>

definition untilGt :: "string \<Rightarrow> (string \<times> string) option" where
  "untilGt s =
     (case dropWhile (\<lambda>c. c \<noteq> CHR ''>'') s of
        [] \<Rightarrow> None
      | _ # after \<Rightarrow> Some (takeWhile (\<lambda>c. c \<noteq> CHR ''>'') s, after))"

text \<open>The input after the leftmost opening tag.\<close>

fun findOpen :: "string \<Rightarrow> string \<Rightarrow> string option" where
  "findOpen tag [] = None"
| "findOpen tag (c # cs) =
     (if c = CHR ''<'' then
        (case untilGt cs of
           None \<Rightarrow> findOpen tag cs
         | Some (inside, after) \<Rightarrow> if openMatch tag inside then Some after else findOpen tag cs)
      else findOpen tag cs)"

text \<open>A closing tag at the very start of the input: the input after it.\<close>

definition closeAt :: "string \<Rightarrow> string \<Rightarrow> string option" where
  "closeAt tag s =
     (case s of
        a # b # t \<Rightarrow>
          if a = CHR ''<'' \<and> b = CHR ''/'' then
            (case untilGt t of
               None \<Rightarrow> None
             | Some (inside, after) \<Rightarrow> if closeMatch tag inside then Some after else None)
          else None
      | _ \<Rightarrow> None)"

text \<open>The text before the first closing tag, and the input after that tag.\<close>

fun findClose :: "string \<Rightarrow> string \<Rightarrow> (string \<times> string) option" where
  "findClose tag [] = None"
| "findClose tag (c # cs) =
     (case closeAt tag (c # cs) of
        Some after \<Rightarrow> Some ([], after)
      | None \<Rightarrow>
          (case findClose tag cs of
             None \<Rightarrow> None
           | Some (content, after) \<Rightarrow> Some (c # content, after)))"

text \<open>One \<open>exec\<close> of the expression: capture group 1 and the input after the match.\<close>

definition execTag :: "string \<Rightarrow> string \<Rightarrow> (string \<times> string) option" where
  "execTag tag s = (case findOpen tag s of None \<Rightarrow> None | Some after \<Rightarrow> findClose tag after)"

definition getTagContent :: "string \<Rightarrow> string \<Rightarrow> string" where
  "getTagContent xml tag =
     (case execTag tag xml of None \<Rightarrow> [] | Some (content, after) \<Rightarrow> trim content)"

lemma untilGt_shorter: "untilGt s = Some (inside, after) \<Longrightarrow> length after < length s"
proof -
  assume a: "untilGt s = Some (inside, after)"
  then obtain x where "dropWhile (\<lambda>c. c \<noteq> CHR ''>'') s = x # after"
    by (auto simp: untilGt_def split: list.splits)
  then have "Suc (length after) = length (dropWhile (\<lambda>c. c \<noteq> CHR ''>'') s)"
    by simp
  also have "\<dots> \<le> length s"
    by (rule length_dropWhile_le)
  finally show ?thesis by simp
qed

lemma findOpen_shorter: "findOpen tag s = Some after \<Longrightarrow> length after < length s"
proof (induction s)
  case Nil
  then show ?case by simp
next
  case (Cons c cs)
  then show ?case
    by (auto split: if_splits option.splits dest: untilGt_shorter)
qed

lemma closeAt_shorter: "closeAt tag s = Some after \<Longrightarrow> length after < length s"
  by (auto simp: closeAt_def split: list.splits if_splits option.splits dest: untilGt_shorter)

lemma findClose_shorter: "findClose tag s = Some (content, after) \<Longrightarrow> length after < length s"
proof (induction s arbitrary: content)
  case Nil
  then show ?case by simp
next
  case (Cons c cs)
  show ?case
  proof (cases "closeAt tag (c # cs)")
    case (Some a)
    with Cons.prems show ?thesis
      by (auto dest: closeAt_shorter)
  next
    case None
    with Cons.prems obtain content' where "findClose tag cs = Some (content', after)"
      by (auto split: option.splits)
    then have "length after < length cs"
      by (rule Cons.IH)
    then show ?thesis by simp
  qed
qed

lemma execTag_shorter: "execTag tag s = Some (content, rest) \<Longrightarrow> length rest < length s"
  by (auto simp: execTag_def split: option.splits
      dest!: findOpen_shorter findClose_shorter)

text \<open>The \<open>while\<close> loop of \<open>getAllTagContents\<close>: \<open>exec\<close> again from the end of each match.\<close>

function getAllTagContents :: "string \<Rightarrow> string \<Rightarrow> string list" where
  "getAllTagContents xml tag =
     (case execTag tag xml of
        None \<Rightarrow> []
      | Some (content, rest) \<Rightarrow> trim content # getAllTagContents rest tag)"
  by pat_completeness auto
termination getAllTagContents
  by (relation "measure (\<lambda>(xml, tag). length xml)") (auto dest: execTag_shorter)

declare getAllTagContents.simps [simp del]

text \<open>
  \<open>hasTag\<close> tests \<open><[^:>]*:?TAG[^>]*(?:/?>|>[\s\S]*?</[^:>]*:?TAG>)\<close>: both alternatives need
  a \<open>>\<close> that ends an opening tag, and the first one needs nothing more.
\<close>

definition hasTag :: "string \<Rightarrow> string \<Rightarrow> bool" where
  "hasTag xml tag = (xml \<noteq> [] \<and> findOpen tag xml \<noteq> None)"

subsection \<open>Numbers and percent-decoding\<close>

function bitLength :: "int \<Rightarrow> nat" where
  "bitLength n = (if n \<le> 0 then 0 else Suc (bitLength (n div 2)))"
  by pat_completeness auto
termination
  by (relation "measure nat") auto

declare bitLength.simps [simp del]

text \<open>
  The double nearest to a non-negative integer (ties to even); \<open>None\<close> is \<open>Infinity\<close>.
  Numbers below \<open>2^53\<close> are doubles already.
\<close>

definition roundToDouble :: "int \<Rightarrow> int option" where
  "roundToDouble n =
     (if n < 2 ^ 53 then Some n
      else
        (let e = bitLength n - 53;
             q = n div 2 ^ e;
             r = n mod 2 ^ e;
             half = 2 ^ (e - 1);
             q' = (if half < r \<or> (r = half \<and> odd q) then q + 1 else q)
         in if 2 ^ 1024 \<le> q' * 2 ^ e then None else Some (q' * 2 ^ e)))"

text \<open>
  \<open>Number.parseInt(value, 10)\<close>: leading white space is skipped, one sign is read, then the
  longest run of decimal digits; \<open>None\<close> is \<open>NaN\<close> (no digit). With radix 10 given, a \<open>0x\<close>
  prefix is not special. The result is the sign and the magnitude.
\<close>

definition parseInt10 :: "string \<Rightarrow> (bool \<times> int) option" where
  "parseInt10 v =
     (let s = trimStart v;
          negative = (case s of [] \<Rightarrow> False | c # cs \<Rightarrow> c = CHR ''-'');
          s' = (case s of [] \<Rightarrow> s | c # cs \<Rightarrow> if c = CHR ''+'' \<or> c = CHR ''-'' then cs else s);
          z = takeWhile isDigit s'
      in if z = [] then None else Some (negative, decimalValue z))"

text \<open>
  \<open>safeParseInteger\<close>: the parsed number if it is finite, else 0. The result is an integer;
  \<open>-0\<close> is 0.
\<close>

definition safeParseInteger :: "string \<Rightarrow> int" where
  "safeParseInteger v =
     (case parseInt10 v of
        None \<Rightarrow> 0
      | Some (negative, n) \<Rightarrow>
          (case roundToDouble n of
             None \<Rightarrow> 0
           | Some d \<Rightarrow> if negative then - d else d))"

definition hexValue :: "char \<Rightarrow> nat option" where
  "hexValue c =
     map_of (zip ''0123456789abcdefABCDEF''
               [0, 1, 2, 3, 4, 5, 6, 7, 8, 9, 10, 11, 12, 13, 14, 15, 10, 11, 12, 13, 14, 15]) c"

definition hexPair :: "char \<Rightarrow> char \<Rightarrow> nat option" where
  "hexPair h1 h2 =
     (case (hexValue h1, hexValue h2) of
        (Some a, Some b) \<Rightarrow> Some (16 * a + b)
      | _ \<Rightarrow> None)"

text \<open>The number of bytes a UTF-8 sequence with this first byte has; 0 for no first byte.\<close>

definition sequenceLength :: "nat \<Rightarrow> nat" where
  "sequenceLength b =
     (if 0xC0 \<le> b \<and> b < 0xE0 then 2
      else if 0xE0 \<le> b \<and> b < 0xF0 then 3
      else if 0xF0 \<le> b \<and> b < 0xF8 then 4
      else 0)"

definition isContinuation :: "nat \<Rightarrow> bool" where
  "isContinuation b = (0x80 \<le> b \<and> b < 0xC0)"

text \<open>Well-formed UTF-8 sequences of two to four bytes.\<close>

definition validUtf8 :: "nat list \<Rightarrow> bool" where
  "validUtf8 bs =
     (case bs of
        [a, b] \<Rightarrow> 0xC2 \<le> a \<and> a < 0xE0 \<and> isContinuation b
      | [a, b, c] \<Rightarrow>
          isContinuation c \<and>
          ((a = 0xE0 \<and> 0xA0 \<le> b \<and> b < 0xC0) \<or>
           (0xE1 \<le> a \<and> a < 0xF0 \<and> a \<noteq> 0xED \<and> isContinuation b) \<or>
           (a = 0xED \<and> 0x80 \<le> b \<and> b < 0xA0))
      | [a, b, c, d] \<Rightarrow>
          isContinuation c \<and> isContinuation d \<and>
          ((a = 0xF0 \<and> 0x90 \<le> b \<and> b < 0xC0) \<or>
           (0xF1 \<le> a \<and> a < 0xF4 \<and> isContinuation b) \<or>
           (a = 0xF4 \<and> 0x80 \<le> b \<and> b < 0x90))
      | _ \<Rightarrow> False)"

definition uriMalformed :: exn where
  "uriMalformed = Exn URIError ''URI malformed''"

definition emit :: "string \<Rightarrow> exn + string \<Rightarrow> exn + string" where
  "emit out r = (case r of Inl e \<Rightarrow> Inl e | Inr s \<Rightarrow> Inr (out @ s))"

text \<open>
  \<open>decodeURIComponent\<close>: \<open>decodeOctets acc k s\<close> decodes \<open>s\<close> when \<open>k\<close> more escaped bytes
  of a multi-byte sequence, whose first bytes are \<open>acc\<close>, are due. Every \<open>%\<close> needs two
  hexadecimal digits; a byte below \<open>0x80\<close> is the character itself; other bytes have to
  form a well-formed UTF-8 sequence of escapes. Anything else is a \<open>URIError\<close>.
\<close>

fun decodeOctets :: "nat list \<Rightarrow> nat \<Rightarrow> string \<Rightarrow> exn + string" where
  "decodeOctets acc k (c # h1 # h2 # rest) =
     (if c = CHR ''%'' then
        (case hexPair h1 h2 of
           None \<Rightarrow> Inl uriMalformed
         | Some b \<Rightarrow>
             if k = 0 then
               (if b < 0x80 then emit [char_of b] (decodeOctets [] 0 rest)
                else if sequenceLength b = 0 then Inl uriMalformed
                else decodeOctets [b] (sequenceLength b - 1) rest)
             else if k = 1 then
               (if validUtf8 (acc @ [b])
                then emit (map char_of (acc @ [b])) (decodeOctets [] 0 rest)
                else Inl uriMalformed)
             else decodeOctets (acc @ [b]) (k - 1) rest)
      else if k = 0 then emit [c] (decodeOctets [] 0 (h1 # h2 # rest))
      else Inl uriMalformed)"
| "decodeOctets acc k [c, d] =
     (if c = CHR ''%'' \<or> k \<noteq> 0 then Inl uriMalformed else emit [c] (decodeOctets [] 0 [d]))"
| "decodeOctets acc k [c] =
     (if c = CHR ''%'' \<or> k \<noteq> 0 then Inl uriMalformed else Inr [c])"
| "decodeOctets acc k [] = (if k = 0 then Inr [] else Inl uriMalformed)"

definition decodeURIComponent :: "string \<Rightarrow> exn + string" where
  "decodeURIComponent s = decodeOctets [] 0 s"

definition decodeSegment :: "string \<Rightarrow> string" where
  "decodeSegment segment =
     (case decodeURIComponent segment of Inl e \<Rightarrow> segment | Inr decoded \<Rightarrow> decoded)"

subsection \<open>parseMultiStatus\<close>

datatype resource_type = Directory | File

record WebDAVStat =
  filename :: string
  basename :: string
  lastmod :: string
  size' :: int
  type' :: resource_type
  etag :: "string option"
  mime :: "string option"

text \<open>\<open>a || b\<close> on strings, and an optional field set only when the string is not empty.\<close>

definition orElse :: "string \<Rightarrow> string \<Rightarrow> string" where
  "orElse a b = (if a = [] then b else a)"

definition nonEmpty :: "string \<Rightarrow> string option" where
  "nonEmpty a = (if a = [] then None else Some a)"

text \<open>
  The inner loop: \<open>prop\<close> is the variable of that name, assigned from every property group
  whose status is empty or contains \<open>" 200 "\<close>; the loop stops at the first non-empty value.
\<close>

fun propLoop :: "string \<Rightarrow> string list \<Rightarrow> string" where
  "propLoop prop [] = prop"
| "propLoop prop (propstat # rest) =
     (let st = getTagContent propstat ''status'' in
      if st = [] \<or> includesStr st '' 200 '' then
        (let prop' = getTagContent propstat ''prop'' in
         if prop' \<noteq> [] then prop' else propLoop prop' rest)
      else propLoop prop rest)"

text \<open>The record built from a response's \<open>href\<close> and its selected \<open>prop\<close> block.\<close>

definition statOf :: "env \<Rightarrow> WebDAVClient \<Rightarrow> string \<Rightarrow> string \<Rightarrow> exn + WebDAVStat" where
  "statOf env c hrefText prop =
     (let resourceType = getTagContent prop ''resourcetype'';
          isDirectory = hasTag resourceType ''collection''
      in case normalizePath env c hrefText of
           Inl e \<Rightarrow> Inl e
         | Inr normalizedPath \<Rightarrow>
             (let segments = filter (\<lambda>x. x \<noteq> []) (splitSlash [] normalizedPath);
                  basenameSegment = (if length segments = 0 then ''/'' else last segments)
              in Inr \<lparr>filename = normalizedPath,
                      basename = decodeSegment basenameSegment,
                      lastmod = getTagContent prop ''getlastmodified'',
                      size' = safeParseInteger
                                (orElse (getTagContent prop ''getcontentlength'') ''0''),
                      type' = (if isDirectory then Directory else File),
                      etag = nonEmpty (getTagContent prop ''getetag''),
                      mime = nonEmpty (getTagContent prop ''getcontenttype'')\<rparr>))"

text \<open>The outer loop over the response elements; \<open>stats\<close> is the array being filled.\<close>

fun responseLoop ::
  "env \<Rightarrow> WebDAVClient \<Rightarrow> WebDAVStat list \<Rightarrow> string list \<Rightarrow> exn + WebDAVStat list" where
  "responseLoop env c stats [] = Inr stats"
| "responseLoop env c stats (resp # rest) =
     (let hrefText = getTagContent resp ''href'' in
      if hrefText = [] then responseLoop env c stats rest
      else
        (let prop = propLoop [] (getAllTagContents resp ''propstat'') in
         if prop = [] then responseLoop env c stats rest
         else
           (case statOf env c hrefText prop of
              Inl e \<Rightarrow> Inl e
            | Inr st \<Rightarrow> responseLoop env c (stats @ [st]) rest)))"

definition parseMultiStatus :: "env \<Rightarrow> WebDAVClient \<Rightarrow> string \<Rightarrow> exn + WebDAVStat list" where
  "parseMultiStatus env c xml = responseLoop env c [] (getAllTagContents xml ''response'')"

section \<open>Request builder\<close>

text \<open>
  \<open>{ ...this.customHeaders, ...(additional ?? {}) }\<close>: the per-call headers are laid over the
  client's. The computed header is added when it is set and the merged object has no
  property \<open>Authorization\<close>.
\<close>

definition buildHeaders :: "WebDAVClient \<Rightarrow> headers option \<Rightarrow> headers" where
  "buildHeaders c additional =
     (let merged = customHeaders c ++ (case additional of None \<Rightarrow> Map.empty | Some a \<Rightarrow> a)
      in case authHeader c of
           None \<Rightarrow> merged
         | Some auth \<Rightarrow>
             if auth \<noteq> [] \<and> merged ''Authorization'' = None
             then merged(''Authorization'' \<mapsto> auth) else merged)"

text \<open>
  \<open>request\<close> resolves the target, builds the headers and calls \<open>fetch\<close> once. Every operation
  returns its outcome together with the list of requests it handed to \<open>fetch\<close>.
\<close>

definition request ::
  "env \<Rightarrow> WebDAVClient \<Rightarrow> string \<Rightarrow> string \<Rightarrow> headers option \<Rightarrow> string option
     \<Rightarrow> (exn + response) \<times> request list" where
  "request env c method path hdrs payload =
     (case resolveRequestURL env c path of
        Inl e \<Rightarrow> (Inl e, [])
      | Inr u \<Rightarrow>
          (let r = \<lparr>req_method = method, req_url = href u,
                    req_headers = buildHeaders c hdrs, req_body = payload\<rparr>
           in (fetch env r, [r])))"

definition ok :: "response \<Rightarrow> bool" where
  "ok r = (200 \<le> status r \<and> status r \<le> 299)"

text \<open>The message of a failed operation: \<open>`${what}: ${response.status} ${response.statusText}`\<close>.\<close>

definition failure :: "string \<Rightarrow> response \<Rightarrow> exn" where
  "failure what r = Exn Error (what @ '': '' @ showNat (status r) @ '' '' @ statusText r)"

definition xmlContentType :: string where
  "xmlContentType = ''application/xml; charset=utf-8''"

definition propfindBody :: string where
  "propfindBody =
     ''<?xml version=\"1.0\" encoding=\"utf-8\" ?>\<newline><d:propfind xmlns:d=\"DAV:\">\<newline>'' @
     ''  <d:prop>\<newline>'' @
     ''    <d:resourcetype/>\<newline>'' @
     ''    <d:getlastmodified/>\<newline>'' @
     ''    <d:getcontentlength/>\<newline>'' @
     ''    <d:getetag/>\<newline>'' @
     ''    <d:getcontenttype/>\<newline>'' @
     ''  </d:prop>\<newline>'' @
     ''</d:propfind>''"

definition quotaBody :: string where
  "quotaBody =
     ''<?xml version=\"1.0\" encoding=\"utf-8\" ?>\<newline><d:propfind xmlns:d=\"DAV:\">\<newline>'' @
     ''  <d:prop>\<newline>'' @
     ''    <d:quota-available-bytes/>\<newline>'' @
     ''    <d:quota-used-bytes/>\<newline>'' @
     ''  </d:prop>\<newline>'' @
     ''</d:propfind>''"

section \<open>Operations\<close>

subsection \<open>Listing and stat\<close>

text \<open>
  A JavaScript number, as far as \<open>getDirectoryContents\<close> looks at it. \<open>Integer\<close>: an integer
  from \<open>-2^53\<close> to \<open>2^53 - 1\<close>, kept in 54-bit two's complement; a double holds each of them
  exactly, and \<open>toString\<close> renders it in plain decimal digits. \<open>OtherFinite\<close>: any other
  finite number, carried as the text \<open>toString\<close> renders for it, such as \<open>1.5\<close>, or
  \<open>1e+21\<close> for the integer \<open>10^21\<close>, where \<open>toString\<close> changes to exponent notation. The
  remaining three values are the numbers that are not finite.
\<close>

datatype number = Integer "54 word" | OtherFinite string | NaN | PosInfinity | NegInfinity

text \<open>The \<open>depth\<close> argument, of type \<open>number | "infinity"\<close>.\<close>

datatype depth = DepthNumber number | DepthInfinity

definition isFinite :: "number \<Rightarrow> bool" where
  "isFinite n = (case n of Integer i \<Rightarrow> True | OtherFinite t \<Rightarrow> True | _ \<Rightarrow> False)"

definition showInt :: "int \<Rightarrow> string" where
  "showInt i = (if i < 0 then CHR ''-'' # showNat (nat (- i)) else showNat (nat i))"

definition numberToString :: "number \<Rightarrow> string" where
  "numberToString n =
     (case n of
        Integer i \<Rightarrow> showInt (sint i)
      | OtherFinite t \<Rightarrow> t
      | NaN \<Rightarrow> ''NaN''
      | PosInfinity \<Rightarrow> ''Infinity''
      | NegInfinity \<Rightarrow> ''-Infinity'')"

definition depthValue :: "depth \<Rightarrow> string" where
  "depthValue d =
     (case d of
        DepthInfinity \<Rightarrow> toLowerCase ''infinity''
      | DepthNumber n \<Rightarrow> if isFinite n then numberToString n else ''infinity'')"

text \<open>An omitted \<open>depth\<close> is 1.\<close>

definition getDirectoryContents ::
  "env \<Rightarrow> WebDAVClient \<Rightarrow> string \<Rightarrow> depth option \<Rightarrow> (exn + WebDAVStat list) \<times> request list" where
  "getDirectoryContents env c path depthArg =
     (let d = (case depthArg of None \<Rightarrow> DepthNumber (Integer 1) | Some x \<Rightarrow> x) in
      case request env c ''PROPFIND'' path
             (Some [''Content-Type'' \<mapsto> xmlContentType, ''Depth'' \<mapsto> depthValue d])
             (Some propfindBody) of
        (Inl e, sent) \<Rightarrow> (Inl e, sent)
      | (Inr r, sent) \<Rightarrow>
          if \<not> ok r then (Inl (failure ''Failed to get directory contents'' r), sent)
          else
            (case parseMultiStatus env c (body r) of
               Inl e \<Rightarrow> (Inl e, sent)
             | Inr stats \<Rightarrow>
                 (case normalizePath env c path of
                    Inl e \<Rightarrow> (Inl e, sent)
                  | Inr targetPath \<Rightarrow>
                      (Inr (filter (\<lambda>st. filename st \<noteq> targetPath) stats), sent))))"

definition stat ::
  "env \<Rightarrow> WebDAVClient \<Rightarrow> string \<Rightarrow> (exn + WebDAVStat) \<times> request list" where
  "stat env c path =
     (case request env c ''PROPFIND'' path
             (Some [''Content-Type'' \<mapsto> xmlContentType, ''Depth'' \<mapsto> ''0''])
             (Some propfindBody) of
        (Inl e, sent) \<Rightarrow> (Inl e, sent)
      | (Inr r, sent) \<Rightarrow>
          if \<not> ok r then (Inl (failure ''Failed to stat resource'' r), sent)
          else
            (case parseMultiStatus env c (body r) of
               Inl e \<Rightarrow> (Inl e, sent)
             | Inr stats \<Rightarrow>
                 (case normalizePath env c path of
                    Inl e \<Rightarrow> (Inl e, sent)
                  | Inr targetPath \<Rightarrow>
                      (case find (\<lambda>st. filename st = targetPath) stats of
                         Some match \<Rightarrow> (Inr match, sent)
                       | None \<Rightarrow>
                           (case stats of
                              first # others \<Rightarrow> (Inr first, sent)
                            | [] \<Rightarrow>
                                (Inl (Exn Error (''Resource not found: '' @ path)), sent))))))"

text \<open>
  The two tests of \<open>exists\<close>: \<open>/Resource not found/i\<close> and
  \<open>/Failed to stat resource:\s*404/\<close>, each looking for a match anywhere in the message.
\<close>

definition resourceNotFoundTest :: "string \<Rightarrow> bool" where
  "resourceNotFoundTest m = includesStr (toLowerCase m) ''resource not found''"

fun failed404Test :: "string \<Rightarrow> bool" where
  "failed404Test [] = False"
| "failed404Test (c # cs) =
     ((startsWith (c # cs) ''Failed to stat resource:'' \<and>
       startsWith (trimStart (drop (length ''Failed to stat resource:'') (c # cs))) ''404'')
      \<or> failed404Test cs)"

definition exists :: "env \<Rightarrow> WebDAVClient \<Rightarrow> string \<Rightarrow> (exn + bool) \<times> request list" where
  "exists env c path =
     (case stat env c path of
        (Inr st, sent) \<Rightarrow> (Inr True, sent)
      | (Inl e, sent) \<Rightarrow>
          if resourceNotFoundTest (message e) then (Inr False, sent)
          else if failed404Test (message e) then (Inr False, sent)
          else (Inl e, sent))"

subsection \<open>Reading and writing\<close>

definition getFileContents ::
  "env \<Rightarrow> WebDAVClient \<Rightarrow> string \<Rightarrow> (exn + string) \<times> request list" where
  "getFileContents env c path =
     (case request env c ''GET'' path None None of
        (Inl e, sent) \<Rightarrow> (Inl e, sent)
      | (Inr r, sent) \<Rightarrow>
          if \<not> ok r then (Inl (failure ''Failed to get file contents'' r), sent)
          else (Inr (body r), sent))"

text \<open>An omitted \<open>encoding\<close> is \<open>utf-8\<close>.\<close>

definition getFileContentsAsText ::
  "env \<Rightarrow> WebDAVClient \<Rightarrow> string \<Rightarrow> string option \<Rightarrow> (exn + string) \<times> request list" where
  "getFileContentsAsText env c path encoding =
     (case getFileContents env c path of
        (Inl e, sent) \<Rightarrow> (Inl e, sent)
      | (Inr buffer, sent) \<Rightarrow>
          (textDecoder env (case encoding of None \<Rightarrow> ''utf-8'' | Some x \<Rightarrow> x) buffer, sent))"

definition putFileContents ::
  "env \<Rightarrow> WebDAVClient \<Rightarrow> string \<Rightarrow> string option \<Rightarrow> headers option
     \<Rightarrow> (exn + unit) \<times> request list" where
  "putFileContents env c path payload hdrs =
     (case request env c ''PUT'' path hdrs payload of
        (Inl e, sent) \<Rightarrow> (Inl e, sent)
      | (Inr r, sent) \<Rightarrow>
          if \<not> ok r then (Inl (failure ''Failed to write file'' r), sent) else (Inr (), sent))"

definition createDirectory ::
  "env \<Rightarrow> WebDAVClient \<Rightarrow> string \<Rightarrow> (exn + unit) \<times> request list" where
  "createDirectory env c path =
     (case request env c ''MKCOL'' path None None of
        (Inl e, sent) \<Rightarrow> (Inl e, sent)
      | (Inr r, sent) \<Rightarrow>
          if \<not> ok r then (Inl (failure ''Failed to create directory'' r), sent)
          else (Inr (), sent))"

definition deleteFile ::
  "env \<Rightarrow> WebDAVClient \<Rightarrow> string \<Rightarrow> (exn + unit) \<times> request list" where
  "deleteFile env c path =
     (case request env c ''DELETE'' path None None of
        (Inl e, sent) \<Rightarrow> (Inl e, sent)
      | (Inr r, sent) \<Rightarrow>
          if status r = 404 then (Inr (), sent)
          else if \<not> ok r then (Inl (failure ''Failed to delete resource'' r), sent)
          else (Inr (), sent))"

subsection \<open>Move and copy\<close>

text \<open>An omitted \<open>overwrite\<close> is \<open>false\<close>. The destination is resolved before the request.\<close>

definition transfer ::
  "string \<Rightarrow> string \<Rightarrow> env \<Rightarrow> WebDAVClient \<Rightarrow> string \<Rightarrow> string \<Rightarrow> bool option
     \<Rightarrow> (exn + unit) \<times> request list" where
  "transfer method what env c fromPath toPath overwrite =
     (case resolveRequestURL env c toPath of
        Inl e \<Rightarrow> (Inl e, [])
      | Inr destination \<Rightarrow>
          (case request env c method fromPath
                  (Some [''Destination'' \<mapsto> href destination,
                         ''Overwrite'' \<mapsto> (if overwrite = Some True then ''T'' else ''F'')])
                  None of
             (Inl e, sent) \<Rightarrow> (Inl e, sent)
           | (Inr r, sent) \<Rightarrow>
               if \<not> ok r then (Inl (failure what r), sent) else (Inr (), sent)))"

definition moveFile ::
  "env \<Rightarrow> WebDAVClient \<Rightarrow> string \<Rightarrow> string \<Rightarrow> bool option \<Rightarrow> (exn + unit) \<times> request list" where
  "moveFile env c fromPath toPath overwrite =
     transfer ''MOVE'' ''Failed to move resource'' env c fromPath toPath overwrite"

definition copyFile ::
  "env \<Rightarrow> WebDAVClient \<Rightarrow> string \<Rightarrow> string \<Rightarrow> bool option \<Rightarrow> (exn + unit) \<times> request list" where
  "copyFile env c fromPath toPath overwrite =
     transfer ''COPY'' ''Failed to copy resource'' env c fromPath toPath overwrite"

subsection \<open>Quota\<close>

record WebDAVQuota =
  used :: int
  available :: int

fun quotaLoop :: "string list \<Rightarrow> WebDAVQuota option" where
  "quotaLoop [] = None"
| "quotaLoop (propstat # rest) =
     (let st = getTagContent propstat ''status'' in
      if st \<noteq> [] \<and> \<not> includesStr st '' 200 '' then quotaLoop rest
      else
        (let prop = getTagContent propstat ''prop'' in
         if prop = [] then quotaLoop rest
         else
           (let quotaAvailable = getTagContent prop ''quota-available-bytes'';
                quotaUsed = getTagContent prop ''quota-used-bytes''
            in if quotaAvailable = [] \<or> quotaUsed = [] then quotaLoop rest
               else Some \<lparr>used = safeParseInteger quotaUsed,
                          available = safeParseInteger quotaAvailable\<rparr>)))"

text \<open>An omitted \<open>path\<close> is \<open>/\<close>; \<open>None\<close> in the result is \<open>null\<close>.\<close>

definition getQuota ::
  "env \<Rightarrow> WebDAVClient \<Rightarrow> string option \<Rightarrow> (exn + WebDAVQuota option) \<times> request list" where
  "getQuota env c pathArg =
     (case request env c ''PROPFIND'' (case pathArg of None \<Rightarrow> ''/'' | Some x \<Rightarrow> x)
             (Some [''Content-Type'' \<mapsto> xmlContentType, ''Depth'' \<mapsto> ''0''])
             (Some quotaBody) of
        (Inl e, sent) \<Rightarrow> (Inl e, sent)
      | (Inr r, sent) \<Rightarrow>
          if \<not> ok r then (Inr None, sent)
          else (Inr (quotaLoop (getAllTagContents (body r) ''propstat'')), sent))"

subsection \<open>Search\<close>

definition replaceAll :: "char \<Rightarrow> string \<Rightarrow> string \<Rightarrow> string" where
  "replaceAll c replacement s = concat (map (\<lambda>x. if x = c then replacement else [x]) s)"

definition escapeXml :: "string \<Rightarrow> string" where
  "escapeXml v =
     replaceAll (CHR 0x27) ''&apos;''
       (replaceAll (CHR 0x22) ''&quot;''
          (replaceAll (CHR ''>'') ''&gt;''
             (replaceAll (CHR ''<'') ''&lt;''
                (replaceAll (CHR ''&'') ''&amp;'' v))))"

text \<open>
  A \<open>Date\<close>, as far as \<open>search\<close> looks at it: its ISO rendering, or an invalid date, on
  which \<open>toISOString\<close> throws.
\<close>

datatype date = ValidDate string | InvalidDate

definition toISOString :: "date \<Rightarrow> exn + string" where
  "toISOString d =
     (case d of
        ValidDate isoText \<Rightarrow> Inr isoText
      | InvalidDate \<Rightarrow> Inl (Exn RangeError ''Invalid time value''))"

record searchOptions =
  query :: "string option"
  contentType :: "string option"
  modifiedAfter :: "date option"
  modifiedBefore :: "date option"

definition clause :: "string \<Rightarrow> string \<Rightarrow> string \<Rightarrow> string" where
  "clause operator property literal =
     ''<d:'' @ operator @ ''>\<newline>'' @
     ''        <d:prop><d:'' @ property @ ''/></d:prop>\<newline>'' @
     ''        <d:literal>'' @ literal @ ''</d:literal>\<newline>'' @
     ''      </d:'' @ operator @ ''>''"

definition textClause :: "string \<Rightarrow> string option \<Rightarrow> string \<Rightarrow> string \<Rightarrow> string list" where
  "textClause operator v property wrap =
     (case v of
        None \<Rightarrow> []
      | Some t \<Rightarrow> if t = [] then [] else [clause operator property (wrap @ escapeXml t @ wrap)])"

definition dateClause :: "string \<Rightarrow> date option \<Rightarrow> exn + string list" where
  "dateClause operator v =
     (case v of
        None \<Rightarrow> Inr []
      | Some d \<Rightarrow>
          (case toISOString d of
             Inl e \<Rightarrow> Inl e
           | Inr isoText \<Rightarrow> Inr [clause operator ''getlastmodified'' (escapeXml isoText)]))"

definition searchClauses :: "searchOptions \<Rightarrow> exn + string list" where
  "searchClauses options =
     (case dateClause ''gt'' (modifiedAfter options) of
        Inl e \<Rightarrow> Inl e
      | Inr afterClause \<Rightarrow>
          (case dateClause ''lt'' (modifiedBefore options) of
             Inl e \<Rightarrow> Inl e
           | Inr beforeClause \<Rightarrow>
               Inr (textClause ''like'' (query options) ''displayname'' ''%'' @
                    textClause ''eq'' (contentType options) ''getcontenttype'' [] @
                    afterClause @ beforeClause)))"

fun joinLines :: "string list \<Rightarrow> string" where
  "joinLines [] = []"
| "joinLines [x] = x"
| "joinLines (x # y # zs) = x @ ''\<newline>'' @ joinLines (y # zs)"

definition searchBody :: "string \<Rightarrow> string list \<Rightarrow> string" where
  "searchBody scopeHref clauses =
     ''<?xml version=\"1.0\" encoding=\"utf-8\" ?>\<newline>'' @
     ''<d:searchrequest xmlns:d=\"DAV:\">\<newline>'' @
     ''  <d:basicsearch>\<newline>'' @
     ''    <d:select>\<newline>'' @
     ''      <d:prop>\<newline>'' @
     ''        <d:resourcetype/>\<newline>'' @
     ''        <d:getlastmodified/>\<newline>'' @
     ''        <d:getcontentlength/>\<newline>'' @
     ''        <d:getetag/>\<newline>'' @
     ''        <d:getcontenttype/>\<newline>'' @
     ''      </d:prop>\<newline>'' @
     ''    </d:select>\<newline>'' @
     ''    <d:from>\<newline>'' @
     ''      <d:scope>\<newline>'' @
     ''        <d:href>'' @ escapeXml scopeHref @ ''</d:href>\<newline>'' @
     ''        <d:depth>infinity</d:depth>\<newline>'' @
     ''      </d:scope>\<newline>'' @
     ''    </d:from>\<newline>'' @
     ''    '' @ (if 0 < length clauses then ''<d:where>'' @ joinLines clauses @ ''</d:where>''
               else []) @ ''\<newline>'' @
     ''  </d:basicsearch>\<newline>'' @
     ''</d:searchrequest>''"

definition search ::
  "env \<Rightarrow> WebDAVClient \<Rightarrow> string \<Rightarrow> searchOptions \<Rightarrow> (exn + WebDAVStat list) \<times> request list" where
  "search env c path options =
     (case searchClauses options of
        Inl e \<Rightarrow> (Inl e, [])
      | Inr clauses \<Rightarrow>
          (case normalizePath env c path of
             Inl e \<Rightarrow> (Inl e, [])
           | Inr scopePath \<Rightarrow>
               (let scopeHref = (if scopePath = ''/'' then scopePath else scopePath @ ''/'') in
                case request env c ''SEARCH'' path
                       (Some [''Content-Type'' \<mapsto> xmlContentType])
                       (Some (searchBody scopeHref clauses)) of
                  (Inl e, sent) \<Rightarrow> (Inl e, sent)
                | (Inr r, sent) \<Rightarrow>
                    if \<not> ok r then (Inl (failure ''Failed to search'' r), sent)
                    else (parseMultiStatus env c (body r), sent))))"

definition createClient :: "env \<Rightarrow> WebDAVClientOptions \<Rightarrow> exn + WebDAVClient" where
  "createClient env options = constructor env options"

section \<open>Properties\<close>

subsection \<open>Definitions used in the statements\<close>

text \<open>
  A surrounding whose transport answers every request with the response \<open>r\<close>, and the client
  of the repository's tests: base URL \<open>https://example.com/dav\<close>, user \<open>user\<close>, password
  \<open>pass\<close>.
\<close>

definition respondWith :: "response \<Rightarrow> env" where
  "respondWith r = \<lparr>fetch = (\<lambda>req. Inr r), hostParser = plainHost, hasBtoa = True,
     textDecoder = (\<lambda>encoding buffer. Inr buffer)\<rparr>"

definition notFound :: response where
  "notFound = \<lparr>status = 404, statusText = ''Not Found'', body = []\<rparr>"

definition serverError :: response where
  "serverError = \<lparr>status = 500, statusText = ''Server Error'', body = []\<rparr>"

definition exampleBase :: url where
  "exampleBase = \<lparr>url_scheme = ''https'', url_username = [], url_password = [],
     url_host = Some ''example.com'', url_port = None, url_path = Segments [''dav'', []],
     url_query = None, url_fragment = None\<rparr>"

definition exampleOptions :: WebDAVClientOptions where
  "exampleOptions = \<lparr>baseURL = ''https://example.com/dav'', username = Some ''user'',
     password = Some ''pass'', headers = None\<rparr>"

definition exampleClient :: WebDAVClient where
  "exampleClient = \<lparr>base = exampleBase, basePath = ''/dav'',
     authHeader = Some ''Basic dXNlcjpwYXNz'', customHeaders = Map.empty\<rparr>"

text \<open>A canonical path: the root \<open>/\<close>, or a leading slash and no slash at the end.\<close>

definition isCanonical :: "string \<Rightarrow> bool" where
  "isCanonical s = (s = ''/'' \<or> (startsWith s ''/'' \<and> last s \<noteq> CHR ''/''))"

text \<open>
  The string-based fallback in the specification's words: a leading slash is ensured,
  trailing slashes are stripped, and an empty result becomes \<open>/\<close>.
\<close>

definition stringFallback :: "string \<Rightarrow> string" where
  "stringFallback p =
     (let withSlash = (if p \<noteq> [] \<and> hd p = CHR ''/'' then p else ''/'' @ p);
          stripped = rev (dropWhile (\<lambda>c. c = CHR ''/'') (rev withSlash))
      in if stripped = [] then ''/'' else stripped)"

subsection \<open>The example client\<close>

lemma example_base_parse:
  "URL_new plainHost ''https://example.com/dav'' None
     = Inr (exampleBase\<lparr>url_path := Segments [''dav'']\<rparr>)"
  by code_simp

lemma example_credentials: "toBase64 (respondWith r) ''user:pass'' = Inr ''dXNlcjpwYXNz''"
  by code_simp

lemma example_constructor: "constructor (respondWith r) exampleOptions = Inr exampleClient"
proof -
  have a: "hostParser (respondWith r) = plainHost"
    by (simp add: respondWith_def)
  have b: "clearHashAndSearch (exampleBase\<lparr>url_path := Segments [''dav'']\<rparr>)
             = exampleBase\<lparr>url_path := Segments [''dav'']\<rparr>"
    by (simp add: clearHashAndSearch_def exampleBase_def)
  have c: "pathname (exampleBase\<lparr>url_path := Segments [''dav'']\<rparr>) = ''/dav''"
    by code_simp
  have d: "\<not> endsWith ''/dav'' ''/''"
    by code_simp
  have e: "setPathname (exampleBase\<lparr>url_path := Segments [''dav'']\<rparr>) ''/dav/'' = exampleBase"
    by code_simp
  have f: "stripTrailingSlashes (pathname exampleBase) = ''/dav''"
    by code_simp
  show ?thesis
    using example_credentials [of r]
    by (simp add: constructor_def exampleOptions_def example_base_parse a b c d e f
        exampleClient_def)
qed

subsection \<open>Path canonicalization is total\<close>

lemma startsWith_slash: "startsWith s ''/'' = (s \<noteq> [] \<and> hd s = CHR ''/'')"
  by (cases s) (auto simp: startsWith_def)

lemma stripTrailingSlashes_last:
  "stripTrailingSlashes s \<noteq> [] \<Longrightarrow> last (stripTrailingSlashes s) \<noteq> CHR ''/''"
proof -
  assume a: "stripTrailingSlashes s \<noteq> []"
  let ?d = "dropWhile (\<lambda>c. c = CHR ''/'') (rev s)"
  from a have "?d \<noteq> []"
    by (simp add: stripTrailingSlashes_def)
  then have "hd ?d \<noteq> CHR ''/''"
    using hd_dropWhile [of "\<lambda>c. c = CHR ''/''" "rev s"] by simp
  moreover have "last (rev ?d) = hd ?d"
    using \<open>?d \<noteq> []\<close> by (simp add: last_rev)
  ultimately show ?thesis
    by (simp add: stripTrailingSlashes_def)
qed

lemma stripTrailingSlashes_hd:
  "stripTrailingSlashes s \<noteq> [] \<Longrightarrow> hd (stripTrailingSlashes s) = hd s"
proof (induction s rule: rev_induct)
  case Nil
  then show ?case by (simp add: stripTrailingSlashes_def)
next
  case (snoc x xs)
  then show ?case
    by (cases "x = CHR ''/''") (auto simp: stripTrailingSlashes_def hd_append)
qed

lemma isCanonical_strip:
  "stripTrailingSlashes s \<noteq> [] \<Longrightarrow> startsWith (stripTrailingSlashes s) ''/''
     \<Longrightarrow> isCanonical (stripTrailingSlashes s)"
  by (simp add: isCanonical_def stripTrailingSlashes_last)

lemma isCanonical_cons:
  "stripTrailingSlashes s \<noteq> [] \<Longrightarrow> isCanonical (CHR ''/'' # stripTrailingSlashes s)"
  by (simp add: isCanonical_def stripTrailingSlashes_last startsWith_def)

lemma stringFallback_eq:
  "stringFallback p =
     (let ensured = (if startsWith p ''/'' then p else CHR ''/'' # p);
          trimmed = stripTrailingSlashes ensured
      in if trimmed = [] then ''/'' else trimmed)"
proof (cases p)
  case Nil
  then show ?thesis
    by (simp add: stringFallback_def startsWith_def stripTrailingSlashes_def)
next
  case (Cons x xs)
  then show ?thesis
    by (simp add: stringFallback_def startsWith_def stripTrailingSlashes_def)
qed

lemma stringFallback_canonical: "isCanonical (stringFallback p)"
proof -
  let ?e = "if startsWith p ''/'' then p else CHR ''/'' # p"
  have h: "hd ?e = CHR ''/''"
    by (simp add: startsWith_slash)
  show ?thesis
  proof (cases "stripTrailingSlashes ?e = []")
    case True
    then show ?thesis
      by (simp add: stringFallback_eq isCanonical_def Let_def)
  next
    case False
    then have "hd (stripTrailingSlashes ?e) = CHR ''/''"
      using stripTrailingSlashes_hd [of ?e] h by simp
    with False have "isCanonical (stripTrailingSlashes ?e)"
      by (intro isCanonical_strip) (simp_all add: startsWith_slash)
    with False show ?thesis
      by (simp add: stringFallback_eq Let_def)
  qed
qed

lemma normalizePath_cases:
  "normalizePath env c p =
     (case resolveURL env c p of
        Inl e \<Rightarrow> Inr (stringFallback p)
      | Inr u \<Rightarrow>
          (let pathname1 =
                 (if basePath c \<noteq> ''/'' \<and>
                     (pathname u = basePath c \<or> startsWith (pathname u) (basePath c @ ''/''))
                  then drop (length (basePath c)) (pathname u) else pathname u);
               pathname2 = stripTrailingSlashes pathname1
           in if pathname2 = [] then Inr ''/''
              else if \<not> startsWith pathname2 ''/'' then Inr (CHR ''/'' # pathname2)
              else Inr pathname2))"
  by (simp add: normalizePath_def tryCatch_def stringFallback_eq Let_def split: sum.splits)

lemma isCanonical_root: "isCanonical ''/''"
  by (simp add: isCanonical_def)

lemma normalizePath_Inr: "\<exists>s. normalizePath env c p = Inr s \<and> isCanonical s"
proof (cases "resolveURL env c p")
  case (Inl e)
  then show ?thesis
    by (simp add: normalizePath_cases stringFallback_canonical)
next
  case (Inr u)
  define p1 where "p1 =
    (if basePath c \<noteq> ''/'' \<and>
        (pathname u = basePath c \<or> startsWith (pathname u) (basePath c @ ''/''))
     then drop (length (basePath c)) (pathname u) else pathname u)"
  define p2 where "p2 = stripTrailingSlashes p1"
  have eq: "normalizePath env c p =
     (if p2 = [] then Inr ''/''
      else if \<not> startsWith p2 ''/'' then Inr (CHR ''/'' # p2) else Inr p2)"
    unfolding p2_def p1_def using Inr by (simp add: normalizePath_cases Let_def)
  consider "p2 = []" | "p2 \<noteq> []" "\<not> startsWith p2 ''/''" | "p2 \<noteq> []" "startsWith p2 ''/''"
    by blast
  then show ?thesis
  proof cases
    case 1
    then show ?thesis by (simp add: eq isCanonical_root)
  next
    case 2
    then show ?thesis
      unfolding eq using isCanonical_cons [of p1] by (simp add: p2_def)
  next
    case 3
    then show ?thesis
      unfolding eq using isCanonical_strip [of p1] by (simp add: p2_def)
  qed
qed

text \<open>
  Claim C9. Path canonicalization is total: for every input, \<open>normalizePath\<close> returns a
  canonical path and does not throw; where URL resolution throws, the result is the
  string-based fallback.
\<close>

theorem normalizePath_total:
  "(\<exists>s. normalizePath env c p = Inr s \<and> isCanonical s) \<and>
   ((\<exists>e. resolveURL env c p = Inl e) \<longrightarrow> normalizePath env c p = Inr (stringFallback p))"
  using normalizePath_Inr [of env c p] by (auto simp: normalizePath_cases)

lemma example_resolve_fails:
  "resolveURL (respondWith r) exampleClient ''http://'' = Inl invalidURL"
proof -
  have "URL_new plainHost ''http://'' None = Inl invalidURL"
    by code_simp
  moreover have "hasSchemePrefix ''http://''"
    by code_simp
  ultimately show ?thesis
    by (simp add: resolveURL_def respondWith_def)
qed

theorem normalizePath_total_witness:
  "resolveURL (respondWith notFound) exampleClient ''http://'' = Inl invalidURL \<and>
   normalizePath (respondWith notFound) exampleClient ''http://'' = Inr ''/http:'' \<and>
   isCanonical ''/http:''"
proof -
  have f: "stringFallback ''http://'' = ''/http:''"
    by code_simp
  have c: "isCanonical ''/http:''"
    by code_simp
  from normalizePath_total [of "respondWith notFound" exampleClient "''http://''"]
  show ?thesis
    using example_resolve_fails [of notFound] f c by auto
qed

subsection \<open>The Authorization header\<close>

lemma constructor_fields:
  assumes "constructor env options = Inr c"
  shows "customHeaders c = (case headers options of None \<Rightarrow> Map.empty | Some h \<Rightarrow> h)"
    and "authHeader c =
           (case (username options, password options) of
              (Some user, Some pass) \<Rightarrow>
                (case toBase64 env (user @ '':'' @ pass) of
                   Inl e \<Rightarrow> None
                 | Inr credentials \<Rightarrow> Some (''Basic '' @ credentials))
            | _ \<Rightarrow> None)"
    and "\<And>user pass. username options = Some user \<Longrightarrow> password options = Some pass
           \<Longrightarrow> \<exists>credentials. toBase64 env (user @ '':'' @ pass) = Inr credentials"
  using assms
  by (auto simp: constructor_def Let_def split: if_splits sum.splits option.splits)

text \<open>
  Claim C10. For a client built by the constructor, the headers of a request are the
  client's headers overlaid with the per-call headers, and the computed \<open>Basic\<close> header is
  added under the key \<open>Authorization\<close> exactly when both credentials were configured and
  the merged headers have no entry under that exact key. A key that differs in letter case
  is a different key, so it does not suppress the header; a per-call header always wins over
  a client header of the same key.
\<close>

theorem buildHeaders_authorization:
  assumes "constructor env options = Inr c"
  shows "buildHeaders c additional =
           (let merged = (case headers options of None \<Rightarrow> Map.empty | Some h \<Rightarrow> h) ++
                         (case additional of None \<Rightarrow> Map.empty | Some a \<Rightarrow> a)
            in case (username options, password options) of
                 (Some user, Some pass) \<Rightarrow>
                   if merged ''Authorization'' = None
                   then merged(''Authorization'' \<mapsto>
                          ''Basic '' @ projr (toBase64 env (user @ '':'' @ pass)))
                   else merged
               | _ \<Rightarrow> merged)
         \<and> (\<forall>a k v. additional = Some a \<and> a k = Some v
                \<longrightarrow> buildHeaders c additional k = Some v)"
proof
  show "buildHeaders c additional =
           (let merged = (case headers options of None \<Rightarrow> Map.empty | Some h \<Rightarrow> h) ++
                         (case additional of None \<Rightarrow> Map.empty | Some a \<Rightarrow> a)
            in case (username options, password options) of
                 (Some user, Some pass) \<Rightarrow>
                   if merged ''Authorization'' = None
                   then merged(''Authorization'' \<mapsto>
                          ''Basic '' @ projr (toBase64 env (user @ '':'' @ pass)))
                   else merged
               | _ \<Rightarrow> merged)"
  proof (cases "username options")
    case None
    then show ?thesis
      using constructor_fields(1,2) [OF assms]
      by (simp add: buildHeaders_def Let_def)
  next
    case user: (Some user)
    show ?thesis
    proof (cases "password options")
      case None
      with user show ?thesis
        using constructor_fields(1,2) [OF assms]
        by (simp add: buildHeaders_def Let_def)
    next
      case (Some pass)
      from constructor_fields(3) [OF assms user Some]
      obtain credentials where cr: "toBase64 env (user @ '':'' @ pass) = Inr credentials"
        by blast
      with user Some show ?thesis
        using constructor_fields(1,2) [OF assms]
        by (simp add: buildHeaders_def Let_def)
    qed
  qed
next
  show "\<forall>a k v. additional = Some a \<and> a k = Some v
          \<longrightarrow> buildHeaders c additional k = Some v"
    by (auto simp: buildHeaders_def Let_def map_add_def split: option.splits)
qed

theorem buildHeaders_authorization_witness:
  "constructor (respondWith notFound) exampleOptions = Inr exampleClient \<and>
   buildHeaders exampleClient (Some [''authorization'' \<mapsto> ''x'']) ''Authorization''
     = Some ''Basic dXNlcjpwYXNz'' \<and>
   buildHeaders exampleClient (Some [''authorization'' \<mapsto> ''x'']) ''authorization''
     = Some ''x'' \<and>
   buildHeaders exampleClient (Some [''Authorization'' \<mapsto> ''x'']) ''Authorization''
     = Some ''x''"
proof -
  note c = example_constructor [of notFound]
  have opts: "headers exampleOptions = None" "username exampleOptions = Some ''user''"
    "password exampleOptions = Some ''pass''"
    by (simp_all add: exampleOptions_def)
  note cred = example_credentials [of notFound]
  from buildHeaders_authorization [OF c, of "Some [''authorization'' \<mapsto> ''x'']"]
  have 1: "buildHeaders exampleClient (Some [''authorization'' \<mapsto> ''x''])
             = [''authorization'' \<mapsto> ''x'', ''Authorization'' \<mapsto> ''Basic dXNlcjpwYXNz'']"
    by (simp add: opts cred Let_def)
  from buildHeaders_authorization [OF c, of "Some [''Authorization'' \<mapsto> ''x'']"]
  have 2: "buildHeaders exampleClient (Some [''Authorization'' \<mapsto> ''x''])
             = [''Authorization'' \<mapsto> ''x'']"
    by (simp add: opts cred Let_def)
  show ?thesis
    using c by (simp add: 1 2)
qed

subsection \<open>The loops of the parser\<close>

text \<open>
  The two loops of \<open>parseMultiStatus\<close> in closed form. The inner loop stops at the first
  extracted \<open>propstat\<close> text that passes the test \<open>successfulPropstat\<close>: its extracted status
  text is empty or contains \<open>" 200 "\<close>, and its extracted \<open>prop\<close> text is not empty. The
  outer loop adds, for every extracted \<open>response\<close> text with a non-empty extracted \<open>href\<close>
  text, the record of that \<open>propstat\<close> text, if there is one.
\<close>

definition successfulPropstat :: "string \<Rightarrow> bool" where
  "successfulPropstat propstat =
     ((getTagContent propstat ''status'' = [] \<or>
       includesStr (getTagContent propstat ''status'') '' 200 '') \<and>
      getTagContent propstat ''prop'' \<noteq> [])"

definition recordsOfResponse :: "env \<Rightarrow> WebDAVClient \<Rightarrow> string \<Rightarrow> (exn + WebDAVStat) list" where
  "recordsOfResponse env c resp =
     (if getTagContent resp ''href'' = [] then []
      else
        (case find successfulPropstat (getAllTagContents resp ''propstat'') of
           None \<Rightarrow> []
         | Some propstat \<Rightarrow>
             [statOf env c (getTagContent resp ''href'') (getTagContent propstat ''prop'')]))"

lemma propLoop_find:
  "propLoop [] propstats =
     (case find successfulPropstat propstats of
        None \<Rightarrow> []
      | Some propstat \<Rightarrow> getTagContent propstat ''prop'')"
  by (induction propstats) (auto simp: successfulPropstat_def Let_def)

lemma statOf_Inr: "\<exists>st. statOf env c hrefText prop = Inr st"
proof -
  obtain s where "normalizePath env c hrefText = Inr s"
    using normalizePath_Inr by blast
  then show ?thesis
    by (simp add: statOf_def Let_def)
qed

lemma find_successful_prop:
  "find successfulPropstat propstats = Some propstat \<Longrightarrow> getTagContent propstat ''prop'' \<noteq> []"
  by (auto simp: find_Some_iff successfulPropstat_def)

lemma responseLoop_records:
  "\<exists>new. responseLoop env c stats responses = Inr (stats @ new) \<and>
         map Inr new = concat (map (recordsOfResponse env c) responses)"
proof (induction responses arbitrary: stats)
  case Nil
  then show ?case by simp
next
  case (Cons resp rest)
  show ?case
  proof (cases "getTagContent resp ''href'' = []")
    case True
    with Cons.IH [of stats] show ?thesis
      by (simp add: recordsOfResponse_def)
  next
    case href: False
    show ?thesis
    proof (cases "find successfulPropstat (getAllTagContents resp ''propstat'')")
      case None
      with href Cons.IH [of stats] show ?thesis
        by (simp add: recordsOfResponse_def propLoop_find)
    next
      case (Some propstat)
      obtain st where st: "statOf env c (getTagContent resp ''href'')
                             (getTagContent propstat ''prop'') = Inr st"
        using statOf_Inr by blast
      from Cons.IH [of "stats @ [st]"] obtain new where
        new: "responseLoop env c (stats @ [st]) rest = Inr ((stats @ [st]) @ new)"
             "map Inr new = concat (map (recordsOfResponse env c) rest)"
        by blast
      have "responseLoop env c stats (resp # rest) = Inr (stats @ (st # new))"
        using href Some st new(1) find_successful_prop [OF Some]
        by (simp add: propLoop_find)
      moreover have "map Inr (st # new) = concat (map (recordsOfResponse env c) (resp # rest))"
        using href Some st new(2) by (simp add: recordsOfResponse_def)
      ultimately show ?thesis by blast
    qed
  qed
qed

definition twoGroups :: string where
  "twoGroups =
     ''<response><href>/dav/b</href>'' @
     ''<propstat><status>HTTP/1.1 404 Not Found</status><prop>x</prop></propstat>'' @
     ''<propstat><status>HTTP/1.1 200 OK</status><prop>y</prop></propstat>'' @
     ''</response>'' @
     ''<response><propstat><prop>z</prop></propstat></response>''"

definition statB :: WebDAVStat where
  "statB = \<lparr>filename = ''/b'', basename = ''b'', lastmod = [], size' = 0, type' = File,
     etag = None, mime = None\<rparr>"

subsection \<open>stat\<close>

definition multiStatus :: response where
  "multiStatus = \<lparr>status = 207, statusText = ''Multi-Status'', body = twoGroups\<rparr>"

lemma respondWith_simps:
  "fetch (respondWith r) req = Inr r"
  "hostParser (respondWith r) = plainHost"
  "hasBtoa (respondWith r) = True"
  by (simp_all add: respondWith_def)

lemma twoGroups_parse: "parseMultiStatus (respondWith r) exampleClient twoGroups = Inr [statB]"
  by code_simp

lemma example_request_a:
  "resolveRequestURL (respondWith r) exampleClient ''a''
     = Inr (exampleBase\<lparr>url_path := Segments [''dav'', ''a'']\<rparr>)"
  by code_simp

lemma example_request_b:
  "resolveRequestURL (respondWith r) exampleClient ''b''
     = Inr (exampleBase\<lparr>url_path := Segments [''dav'', ''b'']\<rparr>)"
  by code_simp

lemma example_normalize_a: "normalizePath (respondWith r) exampleClient ''a'' = Inr ''/a''"
  by code_simp

lemma example_normalize_b: "normalizePath (respondWith r) exampleClient ''b'' = Inr ''/b''"
  by code_simp

lemma ok_multiStatus: "ok multiStatus" "body multiStatus = twoGroups"
  by (simp_all add: ok_def multiStatus_def)

text \<open>
  Claim C1, refuted as stated: the response body parses to the single entry \<open>/b\<close>, the
  queried path canonicalizes to \<open>/a\<close>, and \<open>stat\<close> returns the entry \<open>/b\<close> instead of
  failing.
\<close>

theorem stat_not_found_counterexample:
  "parseMultiStatus (respondWith multiStatus) exampleClient (body multiStatus) = Inr [statB] \<and>
   normalizePath (respondWith multiStatus) exampleClient ''a'' = Inr ''/a'' \<and>
   filename statB = ''/b'' \<and>
   fst (stat (respondWith multiStatus) exampleClient ''a'') = Inr statB"
  by (simp add: stat_def request_def example_request_a respondWith_simps ok_multiStatus
      twoGroups_parse example_normalize_a statB_def)

text \<open>
  Claim C1, amended. When the transport answers the \<open>PROPFIND\<close> with a success status,
  \<open>stat\<close> returns the first parsed entry whose canonical path equals the canonicalized
  queried path; if no entry matches and the list is not empty it returns the first parsed
  entry; it fails with \<open>Resource not found\<close> only when the list of parsed entries is empty.
\<close>

theorem stat_result:
  assumes "\<And>req. fetch env req = Inr r" and "ok r"
    and "resolveRequestURL env c path = Inr u"
    and "parseMultiStatus env c (body r) = Inr stats"
    and "normalizePath env c path = Inr target"
  shows "(\<forall>m. find (\<lambda>st. filename st = target) stats = Some m
              \<longrightarrow> fst (stat env c path) = Inr m) \<and>
         (find (\<lambda>st. filename st = target) stats = None \<and> stats \<noteq> []
              \<longrightarrow> fst (stat env c path) = Inr (hd stats)) \<and>
         (stats = []
              \<longrightarrow> fst (stat env c path) = Inl (Exn Error (''Resource not found: '' @ path)))"
  using assms
  by (auto simp: stat_def request_def Let_def split: list.splits)

theorem stat_result_witness:
  "fst (stat (respondWith multiStatus) exampleClient ''b'') = Inr statB \<and>
   normalizePath (respondWith multiStatus) exampleClient ''b'' = Inr (filename statB)"
proof -
  have f: "find (\<lambda>st. filename st = ''/b'') [statB] = Some statB"
    by (simp add: statB_def)
  from stat_result [of "respondWith multiStatus" multiStatus exampleClient "''b''" _
      "[statB]" "''/b''"]
  show ?thesis
    using f by (simp add: respondWith_simps ok_multiStatus example_request_b twoGroups_parse
        example_normalize_b statB_def)
qed

subsection \<open>Error mapping\<close>

lemma showNat_404: "showNat 404 = ''404''"
  by code_simp

lemma showNat_500: "showNat 500 = ''500''"
  by code_simp

lemma failed404Test_message:
  "failed404Test (message (failure ''Failed to stat resource'' r)) = True" if "status r = 404"
  using that by (simp add: failure_def showNat_404 startsWith_def isWs1_def isWs2_def isWs3_def)

lemma not_ok_404: "status r = 404 \<Longrightarrow> \<not> ok r"
  by (simp add: ok_def)

text \<open>
  Claim C5, refuted as stated: on a 500 response \<open>getQuota\<close> does not fail, it returns
  \<open>null\<close>.
\<close>

theorem getQuota_failure_counterexample:
  "\<not> ok serverError \<and>
   fst (getQuota (respondWith serverError) exampleClient (Some ''a'')) = Inr None"
  by (simp add: getQuota_def request_def example_request_a respondWith_simps ok_def
      serverError_def)

text \<open>
  Claim C5, amended. When the transport answers with a status outside 200..299, every
  operation other than \<open>exists\<close>, \<open>deleteFile\<close> and \<open>getQuota\<close> fails with a message that
  names the operation and carries the status and the status text; \<open>getQuota\<close> returns
  \<open>null\<close>; on 404 \<open>exists\<close> returns \<open>false\<close> and \<open>deleteFile\<close> succeeds, each after exactly
  one request; on any other such status \<open>deleteFile\<close> fails like the rest.
\<close>

theorem failure_mapping:
  assumes "\<And>req. fetch env req = Inr r" and "\<not> ok r"
    and "resolveRequestURL env c path = Inr u"
  shows
    "fst (getDirectoryContents env c path depthArg)
       = Inl (Exn Error (''Failed to get directory contents: '' @ showNat (status r) @ '' '' @
                         statusText r)) \<and>
     fst (stat env c path)
       = Inl (Exn Error (''Failed to stat resource: '' @ showNat (status r) @ '' '' @
                         statusText r)) \<and>
     fst (getFileContents env c path)
       = Inl (Exn Error (''Failed to get file contents: '' @ showNat (status r) @ '' '' @
                         statusText r)) \<and>
     fst (getFileContentsAsText env c path encoding)
       = Inl (Exn Error (''Failed to get file contents: '' @ showNat (status r) @ '' '' @
                         statusText r)) \<and>
     fst (putFileContents env c path payload hdrs)
       = Inl (Exn Error (''Failed to write file: '' @ showNat (status r) @ '' '' @
                         statusText r)) \<and>
     fst (createDirectory env c path)
       = Inl (Exn Error (''Failed to create directory: '' @ showNat (status r) @ '' '' @
                         statusText r)) \<and>
     ((\<exists>d. resolveRequestURL env c toPath = Inr d) \<longrightarrow>
        fst (moveFile env c path toPath overwrite)
          = Inl (Exn Error (''Failed to move resource: '' @ showNat (status r) @ '' '' @
                            statusText r)) \<and>
        fst (copyFile env c path toPath overwrite)
          = Inl (Exn Error (''Failed to copy resource: '' @ showNat (status r) @ '' '' @
                            statusText r))) \<and>
     ((\<exists>clauses. searchClauses options = Inr clauses) \<longrightarrow>
        fst (search env c path options)
          = Inl (Exn Error (''Failed to search: '' @ showNat (status r) @ '' '' @
                            statusText r))) \<and>
     fst (getQuota env c (Some path)) = Inr None \<and>
     (status r = 404 \<longrightarrow>
        fst (exists env c path) = Inr False \<and> length (snd (exists env c path)) = 1 \<and>
        fst (deleteFile env c path) = Inr () \<and> length (snd (deleteFile env c path)) = 1) \<and>
     (status r \<noteq> 404 \<longrightarrow>
        fst (deleteFile env c path)
          = Inl (Exn Error (''Failed to delete resource: '' @ showNat (status r) @ '' '' @
                            statusText r)))"
proof -
  note basics = assms request_def failure_def
  have listing: "fst (getDirectoryContents env c path depthArg)
       = Inl (Exn Error (''Failed to get directory contents: '' @ showNat (status r) @ '' '' @
                         statusText r))"
    by (simp add: getDirectoryContents_def basics)
  have st: "stat env c path = (Inl (failure ''Failed to stat resource'' r),
       [\<lparr>req_method = ''PROPFIND'', req_url = href u,
         req_headers = buildHeaders c
            (Some [''Content-Type'' \<mapsto> xmlContentType, ''Depth'' \<mapsto> ''0'']),
         req_body = Some propfindBody\<rparr>])"
    by (simp add: stat_def assms request_def)
  have get: "fst (getFileContents env c path)
       = Inl (Exn Error (''Failed to get file contents: '' @ showNat (status r) @ '' '' @
                         statusText r))"
    by (simp add: getFileContents_def basics)
  have getText: "fst (getFileContentsAsText env c path encoding)
       = Inl (Exn Error (''Failed to get file contents: '' @ showNat (status r) @ '' '' @
                         statusText r))"
    by (simp add: getFileContentsAsText_def getFileContents_def basics)
  have put: "fst (putFileContents env c path payload hdrs)
       = Inl (Exn Error (''Failed to write file: '' @ showNat (status r) @ '' '' @
                         statusText r))"
    by (simp add: putFileContents_def basics)
  have mk: "fst (createDirectory env c path)
       = Inl (Exn Error (''Failed to create directory: '' @ showNat (status r) @ '' '' @
                         statusText r))"
    by (simp add: createDirectory_def basics)
  have mv: "(\<exists>d. resolveRequestURL env c toPath = Inr d) \<longrightarrow>
        fst (moveFile env c path toPath overwrite)
          = Inl (Exn Error (''Failed to move resource: '' @ showNat (status r) @ '' '' @
                            statusText r)) \<and>
        fst (copyFile env c path toPath overwrite)
          = Inl (Exn Error (''Failed to copy resource: '' @ showNat (status r) @ '' '' @
                            statusText r))"
    by (auto simp: moveFile_def copyFile_def transfer_def basics)
  have se: "(\<exists>clauses. searchClauses options = Inr clauses) \<longrightarrow>
        fst (search env c path options)
          = Inl (Exn Error (''Failed to search: '' @ showNat (status r) @ '' '' @
                            statusText r))"
  proof
    assume "\<exists>clauses. searchClauses options = Inr clauses"
    then obtain clauses where cl: "searchClauses options = Inr clauses" by blast
    obtain scope where sc: "normalizePath env c path = Inr scope"
      using normalizePath_Inr by blast
    show "fst (search env c path options)
          = Inl (Exn Error (''Failed to search: '' @ showNat (status r) @ '' '' @
                            statusText r))"
      by (simp add: search_def cl sc basics Let_def)
  qed
  have quota: "fst (getQuota env c (Some path)) = Inr None"
    by (simp add: getQuota_def basics)
  have del: "deleteFile env c path =
       (if status r = 404 then Inr () else Inl (failure ''Failed to delete resource'' r),
        [\<lparr>req_method = ''DELETE'', req_url = href u, req_headers = buildHeaders c None,
          req_body = None\<rparr>])"
    by (simp add: deleteFile_def assms request_def)
  have ex: "status r = 404 \<longrightarrow>
        fst (exists env c path) = Inr False \<and> length (snd (exists env c path)) = 1"
    using failed404Test_message [of r] by (simp add: exists_def st)
  show ?thesis
    using listing get getText put mk mv se quota ex
    by (simp add: st del failure_def)
qed

theorem failure_mapping_witness:
  "fst (stat (respondWith notFound) exampleClient ''a'')
     = Inl (Exn Error ''Failed to stat resource: 404 Not Found'') \<and>
   fst (exists (respondWith notFound) exampleClient ''a'') = Inr False \<and>
   fst (deleteFile (respondWith notFound) exampleClient ''a'') = Inr () \<and>
   length (snd (deleteFile (respondWith notFound) exampleClient ''a'')) = 1 \<and>
   fst (getQuota (respondWith notFound) exampleClient (Some ''a'')) = Inr None"
proof -
  have n: "\<not> ok notFound" "status notFound = 404" "statusText notFound = ''Not Found''"
    by (simp_all add: ok_def notFound_def)
  from failure_mapping [of "respondWith notFound" notFound exampleClient "''a''", OF _ n(1)
      example_request_a]
  show ?thesis
    by (simp add: respondWith_simps n showNat_404)
qed

subsection \<open>The Depth header\<close>

lemma buildHeaders_per_call:
  "a k = Some v \<Longrightarrow> buildHeaders c (Some a) k = Some v"
  by (auto simp: buildHeaders_def Let_def map_add_def split: option.splits)

lemma request_sent:
  "resolveRequestURL env c path = Inr u \<Longrightarrow>
     snd (request env c method path hdrs payload)
       = [\<lparr>req_method = method, req_url = href u, req_headers = buildHeaders c hdrs,
           req_body = payload\<rparr>]"
  by (simp add: request_def Let_def)

lemma getDirectoryContents_sent:
  "snd (getDirectoryContents env c path depthArg)
     = snd (request env c ''PROPFIND'' path
              (Some [''Content-Type'' \<mapsto> xmlContentType,
                     ''Depth'' \<mapsto> depthValue (case depthArg of
                                                   None \<Rightarrow> DepthNumber (Integer 1)
                                                 | Some x \<Rightarrow> x)])
              (Some propfindBody))"
  by (simp add: getDirectoryContents_def Let_def split: prod.splits sum.splits)

lemma stat_sent:
  "snd (stat env c path)
     = snd (request env c ''PROPFIND'' path
              (Some [''Content-Type'' \<mapsto> xmlContentType, ''Depth'' \<mapsto> ''0''])
              (Some propfindBody))"
  by (simp add: stat_def split: prod.splits sum.splits list.splits option.splits)

text \<open>
  Claim C4, refuted as stated: 1.5 is neither an integer nor the literal \<open>infinity\<close>, and
  the header sent for it is \<open>1.5\<close>, not \<open>infinity\<close>.
\<close>

theorem depth_fallback_counterexample:
  "map (\<lambda>q. req_headers q ''Depth'')
     (snd (getDirectoryContents (respondWith multiStatus) exampleClient ''a''
             (Some (DepthNumber (OtherFinite ''1.5'')))))
     = [Some ''1.5'']"
  by (simp add: getDirectoryContents_sent request_sent [OF example_request_a]
      buildHeaders_per_call depthValue_def isFinite_def numberToString_def)

text \<open>
  Claim C4, amended. Whenever the path resolves, \<open>getDirectoryContents\<close> sends one request,
  whose headers hold under the key \<open>Depth\<close>: \<open>1\<close> when the argument is omitted; the decimal digits of the
  depth, with a minus sign if it is negative, when it is an integer from \<open>-2^53\<close> to
  \<open>2^53 - 1\<close>; the number's own rendering when it is any other finite number (\<open>1.5\<close> for
  1.5); \<open>infinity\<close> for the literal \<open>infinity\<close> and for the numbers \<open>NaN\<close>, \<open>Infinity\<close> and
  \<open>-Infinity\<close>. \<open>stat\<close> always sends \<open>0\<close>.
\<close>

theorem depth_header:
  assumes "resolveRequestURL env c path = Inr u"
  shows
    "map (\<lambda>q. req_headers q ''Depth'') (snd (getDirectoryContents env c path depthArg))
       = [Some (case depthArg of
                  None \<Rightarrow> ''1''
                | Some (DepthNumber (Integer i)) \<Rightarrow>
                    (if sint i < 0 then CHR ''-'' # showNat (nat (- sint i))
                     else showNat (nat (sint i)))
                | Some (DepthNumber (OtherFinite t)) \<Rightarrow> t
                | Some (DepthNumber NaN) \<Rightarrow> ''infinity''
                | Some (DepthNumber PosInfinity) \<Rightarrow> ''infinity''
                | Some (DepthNumber NegInfinity) \<Rightarrow> ''infinity''
                | Some DepthInfinity \<Rightarrow> ''infinity'')] \<and>
     map (\<lambda>q. req_headers q ''Depth'') (snd (stat env c path)) = [Some ''0'']"
proof -
  have one: "showInt 1 = ''1''"
    by code_simp
  have low: "toLowerCase ''infinity'' = ''infinity''"
    by code_simp
  have sent: "map (\<lambda>q. req_headers q ''Depth'') (snd (getDirectoryContents env c path depthArg))
       = [Some (depthValue (case depthArg of None \<Rightarrow> DepthNumber (Integer 1) | Some x \<Rightarrow> x))]"
    by (simp add: getDirectoryContents_sent request_sent [OF assms] buildHeaders_per_call)
  have val: "depthValue (case depthArg of None \<Rightarrow> DepthNumber (Integer 1) | Some x \<Rightarrow> x)
       = (case depthArg of
                  None \<Rightarrow> ''1''
                | Some (DepthNumber (Integer i)) \<Rightarrow>
                    (if sint i < 0 then CHR ''-'' # showNat (nat (- sint i))
                     else showNat (nat (sint i)))
                | Some (DepthNumber (OtherFinite t)) \<Rightarrow> t
                | Some (DepthNumber NaN) \<Rightarrow> ''infinity''
                | Some (DepthNumber PosInfinity) \<Rightarrow> ''infinity''
                | Some (DepthNumber NegInfinity) \<Rightarrow> ''infinity''
                | Some DepthInfinity \<Rightarrow> ''infinity'')"
  proof (cases depthArg)
    case None
    then show ?thesis
      by (simp add: depthValue_def isFinite_def numberToString_def one)
  next
    case (Some d)
    then show ?thesis
      by (simp add: depthValue_def isFinite_def numberToString_def showInt_def low
          split: depth.splits number.splits)
  qed
  have st: "map (\<lambda>q. req_headers q ''Depth'') (snd (stat env c path)) = [Some ''0'']"
    by (simp add: stat_sent request_sent [OF assms] buildHeaders_per_call)
  show ?thesis
    using sent val st by simp
qed

theorem depth_header_witness:
  "map (\<lambda>d. map (\<lambda>q. req_headers q ''Depth'')
               (snd (getDirectoryContents (respondWith multiStatus) exampleClient ''a'' d)))
     [None, Some (DepthNumber (Integer 2)), Some (DepthNumber (Integer (- 3))),
      Some (DepthNumber (OtherFinite ''1e+21'')), Some (DepthNumber NaN),
      Some (DepthNumber PosInfinity), Some (DepthNumber NegInfinity), Some DepthInfinity]
     = [[Some ''1''], [Some ''2''], [Some ''-3''], [Some ''1e+21''], [Some ''infinity''],
        [Some ''infinity''], [Some ''infinity''], [Some ''infinity'']] \<and>
   map (\<lambda>q. req_headers q ''Depth'') (snd (stat (respondWith multiStatus) exampleClient ''a''))
     = [Some ''0'']"
proof -
  have two: "sint (2 :: 54 word) = 2" "showNat 2 = ''2''"
    by simp code_simp
  have three: "sint (- 3 :: 54 word) = - 3" "showNat 3 = ''3''"
    by simp code_simp
  note d = depth_header [OF example_request_a [of multiStatus]]
  from d [of None] d [of "Some (DepthNumber (Integer 2))"]
    d [of "Some (DepthNumber (Integer (- 3)))"]
    d [of "Some (DepthNumber (OtherFinite ''1e+21''))"] d [of "Some (DepthNumber NaN)"]
    d [of "Some (DepthNumber PosInfinity)"] d [of "Some (DepthNumber NegInfinity)"]
    d [of "Some DepthInfinity"]
  show ?thesis
    by (simp add: two three)
qed

subsection \<open>Where a parsed record comes from\<close>

lemma parsed_origin:
  assumes "parseMultiStatus env c xml = Inr stats" and "st \<in> set stats"
  shows "\<exists>resp propstat.
           resp \<in> set (getAllTagContents xml ''response'') \<and>
           getTagContent resp ''href'' \<noteq> [] \<and>
           find successfulPropstat (getAllTagContents resp ''propstat'') = Some propstat \<and>
           statOf env c (getTagContent resp ''href'') (getTagContent propstat ''prop'') = Inr st"
proof -
  from responseLoop_records [of env c "[]" "getAllTagContents xml ''response''"] assms(1)
  have "map Inr stats = concat (map (recordsOfResponse env c) (getAllTagContents xml ''response''))"
    by (auto simp: parseMultiStatus_def)
  then have "set (map Inr stats)
      = (\<Union>resp\<in>set (getAllTagContents xml ''response''). set (recordsOfResponse env c resp))"
    by simp
  moreover have "Inr st \<in> set (map Inr stats)"
    using assms(2) by simp
  ultimately have "\<exists>resp\<in>set (getAllTagContents xml ''response'').
      Inr st \<in> set (recordsOfResponse env c resp)"
    by blast
  then obtain resp where resp: "resp \<in> set (getAllTagContents xml ''response'')"
      and mem: "Inr st \<in> set (recordsOfResponse env c resp)"
    by blast
  show ?thesis
  proof (cases "getTagContent resp ''href'' = []")
    case True
    with mem show ?thesis
      by (simp add: recordsOfResponse_def)
  next
    case href: False
    show ?thesis
    proof (cases "find successfulPropstat (getAllTagContents resp ''propstat'')")
      case None
      with mem href show ?thesis
        by (simp add: recordsOfResponse_def)
    next
      case (Some propstat)
      with mem href have
        "statOf env c (getTagContent resp ''href'') (getTagContent propstat ''prop'') = Inr st"
        by (simp add: recordsOfResponse_def)
      with resp href Some show ?thesis
        by blast
    qed
  qed
qed

subsection \<open>The size field\<close>














text \<open>
  The \<open>href\<close> text and the \<open>prop\<close> text the loops select, one pair for every record, in the
  order of the records.
\<close>

definition blocksOfResponse :: "string \<Rightarrow> (string \<times> string) list" where
  "blocksOfResponse resp =
     (if getTagContent resp ''href'' = [] then []
      else
        (case find successfulPropstat (getAllTagContents resp ''propstat'') of
           None \<Rightarrow> []
         | Some propstat \<Rightarrow> [(getTagContent resp ''href'', getTagContent propstat ''prop'')]))"

definition selectedBlocks :: "string \<Rightarrow> (string \<times> string) list" where
  "selectedBlocks xml = concat (map blocksOfResponse (getAllTagContents xml ''response''))"


lemma recordsOfResponse_blocks:
  "recordsOfResponse env c resp = map (\<lambda>(h, p). statOf env c h p) (blocksOfResponse resp)"
  by (simp add: recordsOfResponse_def blocksOfResponse_def split: option.splits)

lemma records_blocks_concat:
  "concat (map (recordsOfResponse env c) responses)
     = map (\<lambda>(h, p). statOf env c h p) (concat (map blocksOfResponse responses))"
  by (induction responses) (simp_all add: recordsOfResponse_blocks)









subsection \<open>Path and basename of a parsed record\<close>

lemma splitSlash_nonempty: "splitSlash acc s \<noteq> []"
  by (induction s arbitrary: acc) auto

lemma splitSlash_no_slash:
  "CHR ''/'' \<notin> set acc \<Longrightarrow> x \<in> set (splitSlash acc s) \<Longrightarrow> CHR ''/'' \<notin> set x"
proof (induction s arbitrary: acc)
  case Nil
  then show ?case by simp
next
  case (Cons ch s)
  show ?case
  proof (cases "ch = CHR ''/''")
    case True
    with Cons.prems have "x = acc \<or> x \<in> set (splitSlash [] s)"
      by simp
    then show ?thesis
      using Cons.prems(1) Cons.IH [of "[]"] by auto
  next
    case False
    with Cons.prems have "x \<in> set (splitSlash (acc @ [ch]) s)"
      by simp
    moreover have "CHR ''/'' \<notin> set (acc @ [ch])"
      using False Cons.prems(1) by auto
    ultimately show ?thesis
      by (rule Cons.IH [rotated])
  qed
qed

lemma splitSlash_last:
  "s \<noteq> [] \<Longrightarrow> last s \<noteq> CHR ''/'' \<Longrightarrow> last (splitSlash acc s) \<noteq> []"
proof (induction s arbitrary: acc)
  case Nil
  then show ?case by simp
next
  case (Cons ch s)
  show ?case
  proof (cases "s = []")
    case True
    with Cons.prems show ?thesis by simp
  next
    case False
    with Cons.prems have "last s \<noteq> CHR ''/''"
      by simp
    with False have "\<And>acc. last (splitSlash acc s) \<noteq> []"
      by (rule Cons.IH)
    then show ?thesis
      using splitSlash_nonempty by simp
  qed
qed

lemma canonical_segments:
  assumes "isCanonical s" and "filter (\<lambda>x. x \<noteq> []) (splitSlash [] s) = []"
  shows "s = ''/''"
proof (rule ccontr)
  assume "s \<noteq> ''/''"
  with assms(1) have "s \<noteq> []" "last s \<noteq> CHR ''/''"
    by (auto simp: isCanonical_def startsWith_def)
  then have "last (splitSlash [] s) \<noteq> []"
    by (rule splitSlash_last)
  moreover have "last (splitSlash [] s) \<in> set (splitSlash [] s)"
    using splitSlash_nonempty by simp
  ultimately have "last (splitSlash [] s) \<in> set (filter (\<lambda>x. x \<noteq> []) (splitSlash [] s))"
    by simp
  with assms(2) show False by simp
qed

lemma includesStr_Cons: "includesStr cs p \<Longrightarrow> includesStr (ch # cs) p"
  by simp

lemma hexValue_cases:
  "hexValue h = Some v \<Longrightarrow>
     v < 16 \<and> (v = 2 \<longrightarrow> h = CHR ''2'') \<and> (v = 15 \<longrightarrow> h = CHR ''f'' \<or> h = CHR ''F'')"
  by (simp add: hexValue_def split: if_splits)

lemma hexPair_slash:
  assumes "hexPair h1 h2 = Some 47"
  shows "h1 = CHR ''2'' \<and> (h2 = CHR ''f'' \<or> h2 = CHR ''F'')"
proof -
  from assms obtain a b where ab: "hexValue h1 = Some a" "hexValue h2 = Some b" "16 * a + b = 47"
    by (auto simp: hexPair_def split: option.splits)
  have "a < 16" "b < 16"
    using hexValue_cases [OF ab(1)] hexValue_cases [OF ab(2)] by simp_all
  with ab(3) have "a = 2" "b = 15"
    by arith+
  with hexValue_cases [OF ab(1)] hexValue_cases [OF ab(2)] show ?thesis
    by simp
qed

lemma hexPair_bound: "hexPair h1 h2 = Some b \<Longrightarrow> b < 256"
proof -
  assume "hexPair h1 h2 = Some b"
  then obtain x y where xy: "hexValue h1 = Some x" "hexValue h2 = Some y" "b = 16 * x + y"
    by (auto simp: hexPair_def split: option.splits)
  from hexValue_cases [OF xy(1)] hexValue_cases [OF xy(2)] xy(3) show ?thesis
    by simp
qed

lemma char_of_slash: "b < 256 \<Longrightarrow> char_of b = CHR ''/'' \<Longrightarrow> b = (47::nat)"
proof -
  assume b: "b < 256" and c: "char_of b = CHR ''/''"
  have "of_char (char_of b :: char) = b mod 256"
    by (simp add: of_char_of)
  with b c show ?thesis
    by simp
qed

lemma escaped_slash_found:
  assumes "h1 = CHR ''2''" and "h2 = CHR ''f'' \<or> h2 = CHR ''F''"
  shows "includesStr (toLowerCase (CHR ''%'' # h1 # h2 # rest)) ''%2f''"
proof -
  have "toLowerChar (CHR ''%'') = CHR ''%''" "toLowerChar (CHR ''2'') = CHR ''2''"
    "toLowerChar (CHR ''f'') = CHR ''f''" "toLowerChar (CHR ''F'') = CHR ''f''"
    by code_simp+
  with assms show ?thesis
    by (auto simp: toLowerCase_def startsWith_def)
qed

lemma validUtf8_high: "validUtf8 bs \<Longrightarrow> x \<in> set bs \<Longrightarrow> 128 \<le> x \<and> x < 256"
  by (auto simp: validUtf8_def isContinuation_def split: list.splits)

lemma emit_Inr: "emit out r = Inr res \<Longrightarrow> \<exists>s. r = Inr s \<and> res = out @ s"
  by (auto simp: emit_def split: sum.splits)

lemma decodeOctets_slash:
  "decodeOctets acc k s = Inr out \<Longrightarrow> CHR ''/'' \<in> set out
     \<Longrightarrow> CHR ''/'' \<in> set s \<or> includesStr (toLowerCase s) ''%2f''"
proof (induction acc k s arbitrary: out rule: decodeOctets.induct)
  case (1 acc k c h1 h2 rest)
  show ?case
  proof (cases "c = CHR ''%''")
    case False
    with "1.prems" have k: "k = 0" and e: "emit [c] (decodeOctets [] 0 (h1 # h2 # rest)) = Inr out"
      by (auto split: if_splits)
    from emit_Inr [OF e] obtain t where t: "decodeOctets [] 0 (h1 # h2 # rest) = Inr t"
        "out = [c] @ t"
      by blast
    show ?thesis
    proof (cases "c = CHR ''/''")
      case True
      then show ?thesis by simp
    next
      case notSlash: False
      with t(2) "1.prems"(2) have "CHR ''/'' \<in> set t"
        by auto
      with "1.IH"(5) [OF False k t(1)]
      have "CHR ''/'' \<in> set (h1 # h2 # rest) \<or>
            includesStr (toLowerCase (h1 # h2 # rest)) ''%2f''"
        by simp
      then show ?thesis
        by (auto simp: toLowerCase_def)
    qed
  next
    case pct: True
    with "1.prems" obtain b where b: "hexPair h1 h2 = Some b"
      by (auto split: option.splits)
    have lift: "CHR ''/'' \<in> set rest \<or> includesStr (toLowerCase rest) ''%2f''
        \<Longrightarrow> ?thesis"
      by (auto simp: toLowerCase_def)
    consider (ascii) "k = 0" "b < 128"
      | (lead) "k = 0" "\<not> b < 128"
      | (final) "k = 1"
      | (middle) "k \<noteq> 0" "k \<noteq> 1"
      by blast
    then show ?thesis
    proof cases
      case ascii
      with "1.prems"(1) pct b have e: "emit [char_of b] (decodeOctets [] 0 rest) = Inr out"
        by simp
      from emit_Inr [OF e] obtain t where t: "decodeOctets [] 0 rest = Inr t"
          "out = [char_of b] @ t"
        by blast
      show ?thesis
      proof (cases "char_of b = CHR ''/''")
        case True
        with ascii have "b = 47"
          using char_of_slash [of b] by simp
        with b have "h1 = CHR ''2'' \<and> (h2 = CHR ''f'' \<or> h2 = CHR ''F'')"
          using hexPair_slash by simp
        then show ?thesis
          using escaped_slash_found [of h1 h2 rest] pct by simp
      next
        case False
        with t(2) "1.prems"(2) have "CHR ''/'' \<in> set t"
          by auto
        with "1.IH"(1) [OF pct b ascii(1) ascii(2) t(1)] show ?thesis
          by (intro lift) simp
      qed
    next
      case lead
      with "1.prems"(1) pct b have n: "sequenceLength b \<noteq> 0"
          and d: "decodeOctets [b] (sequenceLength b - 1) rest = Inr out"
        by (auto split: if_splits)
      from "1.IH"(2) [OF pct b lead(1) lead(2) n d "1.prems"(2)] show ?thesis
        by (intro lift) simp
    next
      case final
      with "1.prems"(1) pct b have v: "validUtf8 (acc @ [b])"
          and e: "emit (map char_of (acc @ [b])) (decodeOctets [] 0 rest) = Inr out"
        by (auto split: if_splits)
      from emit_Inr [OF e] obtain t where t: "decodeOctets [] 0 rest = Inr t"
          "out = map char_of (acc @ [b]) @ t"
        by blast
      have "CHR ''/'' \<notin> set (map char_of (acc @ [b]) :: string)"
      proof
        assume "CHR ''/'' \<in> set (map char_of (acc @ [b]) :: string)"
        then have "CHR ''/'' \<in> char_of ` set (acc @ [b])"
          by (simp only: set_map)
        then obtain x where x: "x \<in> set (acc @ [b])" "char_of x = CHR ''/''"
          by (metis imageE)
        from validUtf8_high [OF v x(1)] x(2) show False
          using char_of_slash [of x] by simp
      qed
      with t(2) "1.prems"(2) have "CHR ''/'' \<in> set t"
        by auto
      with "1.IH"(3) [OF pct b _ final v t(1)] final show ?thesis
        by (intro lift) simp
    next
      case middle
      with "1.prems"(1) pct b have d: "decodeOctets (acc @ [b]) (k - 1) rest = Inr out"
        by simp
      from "1.IH"(4) [OF pct b middle d "1.prems"(2)] show ?thesis
        by (intro lift) simp
    qed
  qed
next
  case (2 acc k c d)
  then have k: "\<not> (c = CHR ''%'' \<or> k \<noteq> 0)" and e: "emit [c] (decodeOctets [] 0 [d]) = Inr out"
    by (auto split: if_splits)
  from emit_Inr [OF e] obtain t where t: "decodeOctets [] 0 [d] = Inr t" "out = [c] @ t"
    by blast
  show ?case
  proof (cases "c = CHR ''/''")
    case True
    then show ?thesis by simp
  next
    case False
    with t(2) "2.prems"(2) have "CHR ''/'' \<in> set t"
      by auto
    with "2.IH" [OF k t(1)] show ?thesis
      by (auto simp: toLowerCase_def)
  qed
next
  case (3 acc k c)
  then show ?case
    by (auto split: if_splits)
next
  case (4 acc k)
  then show ?case
    by (auto split: if_splits)
qed

lemma decodeSegment_slash:
  "CHR ''/'' \<in> set (decodeSegment s)
     \<Longrightarrow> CHR ''/'' \<in> set s \<or> includesStr (toLowerCase s) ''%2f''"
  by (auto simp: decodeSegment_def decodeURIComponent_def split: sum.splits
      dest: decodeOctets_slash)

lemma decodeSegment_root: "decodeSegment ''/'' = ''/''"
  by code_simp

definition escapedSlash :: string where
  "escapedSlash =
     ''<response><href>/dav/a%2Fb</href><propstat><prop>y</prop></propstat></response>''"

lemma escapedSlash_parse:
  "parseMultiStatus (respondWith r) exampleClient escapedSlash
     = Inr [statB\<lparr>filename := ''/a%2Fb'', basename := ''a/b''\<rparr>]"
  by code_simp

lemma root_stat:
  "statOf (respondWith r) exampleClient ''/dav/'' ''y''
     = Inr (statB\<lparr>filename := ''/'', basename := ''/''\<rparr>)"
  by code_simp

text \<open>
  Claim C7, refuted as stated: the record parsed for the href \<open>/dav/a%2Fb\<close> has the
  basename \<open>a/b\<close>, and the record built for the root has the basename \<open>/\<close>; both contain
  a slash.
\<close>

theorem basename_slash_counterexample:
  "parseMultiStatus (respondWith multiStatus) exampleClient escapedSlash
     = Inr [statB\<lparr>filename := ''/a%2Fb'', basename := ''a/b''\<rparr>] \<and>
   CHR ''/'' \<in> set (basename (statB\<lparr>filename := ''/a%2Fb'', basename := ''a/b''\<rparr>)) \<and>
   statOf (respondWith multiStatus) exampleClient ''/dav/'' ''y''
     = Inr (statB\<lparr>filename := ''/'', basename := ''/''\<rparr>)"
  by (simp add: escapedSlash_parse root_stat)

text \<open>
  Claim C7, amended. The path of every parsed record is canonical: it starts with a slash
  and does not end with one, unless it is the root \<open>/\<close>. For the root the basename is \<open>/\<close>.
  Otherwise the basename is the percent-decoded last segment of the path (the segment
  itself when decoding fails); the segment contains no slash, and the basename contains one
  only when the segment holds an escaped slash, \<open>%2F\<close> or \<open>%2f\<close>.
\<close>

theorem parsed_path_and_basename:
  assumes "parseMultiStatus env c xml = Inr stats" and "st \<in> set stats"
  shows "isCanonical (filename st) \<and>
         (let segments = filter (\<lambda>x. x \<noteq> []) (splitSlash [] (filename st))
          in (segments = [] \<longrightarrow> filename st = ''/'' \<and> basename st = ''/'') \<and>
             (segments \<noteq> [] \<longrightarrow>
                CHR ''/'' \<notin> set (last segments) \<and>
                basename st = decodeSegment (last segments)) \<and>
             (CHR ''/'' \<in> set (basename st) \<longrightarrow>
                segments = [] \<or> includesStr (toLowerCase (last segments)) ''%2f''))"
proof -
  from parsed_origin [OF assms] obtain hrefText propText where
    o: "statOf env c hrefText propText = Inr st"
    by blast
  obtain p where p: "normalizePath env c hrefText = Inr p" "isCanonical p"
    using normalizePath_Inr by blast
  define segments where "segments = filter (\<lambda>x. x \<noteq> []) (splitSlash [] p)"
  from o p(1) have f: "filename st = p"
    and b: "basename st = decodeSegment (if length segments = 0 then ''/'' else last segments)"
    by (auto simp: statOf_def Let_def segments_def)
  have root: "segments = [] \<Longrightarrow> p = ''/'' \<and> basename st = ''/''"
    using canonical_segments [OF p(2)] b by (simp add: segments_def decodeSegment_root)
  have noSlash: "CHR ''/'' \<notin> set (last segments)" if "segments \<noteq> []"
  proof -
    from that have "last segments \<in> set segments"
      by simp
    then have "last segments \<in> set (splitSlash [] p)"
      by (simp add: segments_def)
    then show ?thesis
      using splitSlash_no_slash [of "[]"] by simp
  qed
  have decoded: "segments \<noteq> [] \<Longrightarrow> basename st = decodeSegment (last segments)"
    using b by simp
  have slash: "segments = [] \<or> includesStr (toLowerCase (last segments)) ''%2f''"
    if "CHR ''/'' \<in> set (basename st)"
  proof (cases "segments = []")
    case True
    then show ?thesis by simp
  next
    case False
    with that decoded have "CHR ''/'' \<in> set (decodeSegment (last segments))"
      by simp
    from decodeSegment_slash [OF this] noSlash [OF False] show ?thesis
      by simp
  qed
  show ?thesis
    using p(2) root noSlash decoded slash
    unfolding f segments_def [symmetric] Let_def by blast
qed

theorem parsed_path_and_basename_witness:
  "isCanonical ''/a%2Fb'' \<and>
   CHR ''/'' \<notin> set ''a%2Fb'' \<and> decodeSegment ''a%2Fb'' = ''a/b'' \<and>
   includesStr (toLowerCase ''a%2Fb'') ''%2f''"
proof -
  have seg: "filter (\<lambda>x. x \<noteq> []) (splitSlash [] ''/a%2Fb'') = [''a%2Fb'']"
    by code_simp
  from parsed_path_and_basename [OF escapedSlash_parse [of multiStatus], of
      "statB\<lparr>filename := ''/a%2Fb'', basename := ''a/b''\<rparr>"]
  show ?thesis
    by (simp add: seg Let_def)
qed

subsection \<open>Tag extraction and white space\<close>

text \<open>
  \<open>getTagContent\<close> returns the first element of what \<open>getAllTagContents\<close> returns, and
  neither of them sees white space around its input: no byte of a white space character is
  one of \<open><\<close>, \<open>>\<close>, \<open>/\<close>.
\<close>

lemma getTagContent_first:
  "getTagContent xml tag = (case getAllTagContents xml tag of [] \<Rightarrow> [] | x # _ \<Rightarrow> x)"
  by (simp add: getTagContent_def getAllTagContents.simps [of xml tag] split: option.splits)

definition inert :: "string \<Rightarrow> bool" where
  "inert ws = (CHR ''<'' \<notin> set ws \<and> CHR ''>'' \<notin> set ws \<and> CHR ''/'' \<notin> set ws)"

lemma inert_simps:
  "inert []" "inert (a # ws) = (a \<noteq> CHR ''<'' \<and> a \<noteq> CHR ''>'' \<and> a \<noteq> CHR ''/'' \<and> inert ws)"
  "inert (u @ v) = (inert u \<and> inert v)" "inert (rev u) = inert u"
  by (auto simp: inert_def)

lemma isWs1_inert: "isWs1 a \<Longrightarrow> inert [a]"
  by (auto simp: isWs1_def inert_def)

lemma isWs2_inert: "isWs2 a b \<Longrightarrow> inert [a, b]"
  by (auto simp: isWs2_def inert_def)

lemma isWs3_inert: "isWs3 a b c \<Longrightarrow> inert [a, b, c]"
  by (auto simp: isWs3_def inert_def)

lemma trimStart_split: "\<exists>ws. s = ws @ trimStart s \<and> inert ws"
proof (induction s rule: trimStart.induct)
  case (1 a b c s)
  show ?case
  proof (cases "isWs1 a")
    case True
    with 1(1) obtain ws where "b # c # s = ws @ trimStart (b # c # s)" "inert ws"
      by blast
    with True isWs1_inert [of a] have
      "a # b # c # s = (a # ws) @ trimStart (a # b # c # s) \<and> inert (a # ws)"
      by (simp add: inert_simps)
    then show ?thesis by blast
  next
    case n1: False
    show ?thesis
    proof (cases "isWs2 a b")
      case True
      with 1(2) n1 obtain ws where "c # s = ws @ trimStart (c # s)" "inert ws"
        by blast
      with True n1 isWs2_inert [of a b] have
        "a # b # c # s = (a # b # ws) @ trimStart (a # b # c # s) \<and> inert (a # b # ws)"
        by (simp add: inert_simps)
      then show ?thesis by blast
    next
      case n2: False
      show ?thesis
      proof (cases "isWs3 a b c")
        case True
        with 1(3) n1 n2 obtain ws where "s = ws @ trimStart s" "inert ws"
          by blast
        with True n1 n2 isWs3_inert [of a b c] have
          "a # b # c # s = (a # b # c # ws) @ trimStart (a # b # c # s) \<and> inert (a # b # c # ws)"
          by (simp add: inert_simps)
        then show ?thesis by blast
      next
        case False
        with n1 n2 have "a # b # c # s = [] @ trimStart (a # b # c # s) \<and> inert []"
          by (simp add: inert_simps)
        then show ?thesis by blast
      qed
    qed
  qed
next
  case (2 a b)
  show ?case
  proof (cases "isWs1 a")
    case True
    with 2 obtain ws where "[b] = ws @ trimStart [b]" "inert ws"
      by blast
    with True isWs1_inert [of a] have "[a, b] = (a # ws) @ trimStart [a, b] \<and> inert (a # ws)"
      by (simp add: inert_simps)
    then show ?thesis by blast
  next
    case False
    then have "[a, b] = (if isWs2 a b then [a, b] else []) @ trimStart [a, b]
        \<and> inert (if isWs2 a b then [a, b] else [])"
      using isWs2_inert [of a b] by (simp add: inert_simps)
    then show ?thesis by blast
  qed
next
  case (3 a)
  have "[a] = (if isWs1 a then [a] else []) @ trimStart [a] \<and> inert (if isWs1 a then [a] else [])"
    using isWs1_inert [of a] by (simp add: inert_simps)
  then show ?case by blast
next
  case 4
  show ?case by (simp add: inert_simps)
qed

lemma trimStartRev_split: "\<exists>ws. s = ws @ trimStartRev s \<and> inert ws"
proof (induction s rule: trimStartRev.induct)
  case (1 c b a s)
  show ?case
  proof (cases "isWs1 c")
    case True
    with 1(1) obtain ws where "b # a # s = ws @ trimStartRev (b # a # s)" "inert ws"
      by blast
    with True isWs1_inert [of c] have
      "c # b # a # s = (c # ws) @ trimStartRev (c # b # a # s) \<and> inert (c # ws)"
      by (simp add: inert_simps)
    then show ?thesis by blast
  next
    case n1: False
    show ?thesis
    proof (cases "isWs2 b c")
      case True
      with 1(2) n1 obtain ws where "a # s = ws @ trimStartRev (a # s)" "inert ws"
        by blast
      with True n1 isWs2_inert [of b c] have
        "c # b # a # s = (c # b # ws) @ trimStartRev (c # b # a # s) \<and> inert (c # b # ws)"
        by (simp add: inert_simps)
      then show ?thesis by blast
    next
      case n2: False
      show ?thesis
      proof (cases "isWs3 a b c")
        case True
        with 1(3) n1 n2 obtain ws where "s = ws @ trimStartRev s" "inert ws"
          by blast
        with True n1 n2 isWs3_inert [of a b c] have
          "c # b # a # s = (c # b # a # ws) @ trimStartRev (c # b # a # s)
             \<and> inert (c # b # a # ws)"
          by (simp add: inert_simps)
        then show ?thesis by blast
      next
        case False
        with n1 n2 have "c # b # a # s = [] @ trimStartRev (c # b # a # s) \<and> inert []"
          by (simp add: inert_simps)
        then show ?thesis by blast
      qed
    qed
  qed
next
  case (2 c b)
  show ?case
  proof (cases "isWs1 c")
    case True
    with 2 obtain ws where "[b] = ws @ trimStartRev [b]" "inert ws"
      by blast
    with True isWs1_inert [of c] have "[c, b] = (c # ws) @ trimStartRev [c, b] \<and> inert (c # ws)"
      by (simp add: inert_simps)
    then show ?thesis by blast
  next
    case False
    then have "[c, b] = (if isWs2 b c then [c, b] else []) @ trimStartRev [c, b]
        \<and> inert (if isWs2 b c then [c, b] else [])"
      using isWs2_inert [of b c] by (simp add: inert_simps)
    then show ?thesis by blast
  qed
next
  case (3 c)
  have "[c] = (if isWs1 c then [c] else []) @ trimStartRev [c]
      \<and> inert (if isWs1 c then [c] else [])"
    using isWs1_inert [of c] by (simp add: inert_simps)
  then show ?case by blast
next
  case 4
  show ?case by (simp add: inert_simps)
qed

lemma trim_split: "\<exists>before after. s = before @ trim s @ after \<and> inert before \<and> inert after"
proof -
  obtain ws1 where a: "s = ws1 @ trimStart s" "inert ws1"
    using trimStart_split by blast
  obtain ws2 where b: "rev (trimStart s) = ws2 @ trimStartRev (rev (trimStart s))" "inert ws2"
    using trimStartRev_split by blast
  from b(1) have "rev (rev (trimStart s)) = rev (ws2 @ trimStartRev (rev (trimStart s)))"
    by simp
  then have "trimStart s = trim s @ rev ws2"
    by (simp add: trim_def trimEnd_def)
  with a(1) have "s = ws1 @ trim s @ rev ws2"
    by simp
  with a(2) b(2) show ?thesis
    by (metis inert_simps(4))
qed

lemma findOpen_no_tag: "CHR ''<'' \<notin> set s \<Longrightarrow> findOpen tag s = None"
  by (induction s) auto

lemma findOpen_skip: "CHR ''<'' \<notin> set ws \<Longrightarrow> findOpen tag (ws @ s) = findOpen tag s"
  by (induction ws) auto

lemma untilGt_append:
  "CHR ''>'' \<notin> set we \<Longrightarrow>
     untilGt (s @ we) = map_option (\<lambda>(inside, after). (inside, after @ we)) (untilGt s)"
proof (cases "CHR ''>'' \<in> set s")
  case True
  then have ne: "\<not> (\<forall>x\<in>set s. x \<noteq> CHR ''>'')"
    by auto
  then have d: "dropWhile (\<lambda>c. c \<noteq> CHR ''>'') (s @ we) = dropWhile (\<lambda>c. c \<noteq> CHR ''>'') s @ we"
    and t: "takeWhile (\<lambda>c. c \<noteq> CHR ''>'') (s @ we) = takeWhile (\<lambda>c. c \<noteq> CHR ''>'') s"
    and "dropWhile (\<lambda>c. c \<noteq> CHR ''>'') s \<noteq> []"
    by (simp_all only: dropWhile_append takeWhile_append dropWhile_eq_Nil_conv if_False
        not_False_eq_True)
  then obtain x r where dr: "dropWhile (\<lambda>c. c \<noteq> CHR ''>'') s = x # r"
    by (cases "dropWhile (\<lambda>c. c \<noteq> CHR ''>'') s") auto
  have "untilGt (s @ we) = Some (takeWhile (\<lambda>c. c \<noteq> CHR ''>'') s, r @ we)"
    unfolding untilGt_def d t dr by simp
  moreover have "untilGt s = Some (takeWhile (\<lambda>c. c \<noteq> CHR ''>'') s, r)"
    unfolding untilGt_def dr by simp
  ultimately show ?thesis
    by simp
next
  case False
  assume "CHR ''>'' \<notin> set we"
  with False have e1: "dropWhile (\<lambda>c. c \<noteq> CHR ''>'') (s @ we) = []"
    and e2: "dropWhile (\<lambda>c. c \<noteq> CHR ''>'') s = []"
    by auto
  show ?thesis
    by (simp only: untilGt_def e1 e2 list.case option.map)
qed

lemma findOpen_append:
  "inert we \<Longrightarrow> findOpen tag (s @ we) = map_option (\<lambda>after. after @ we) (findOpen tag s)"
proof (induction s)
  case Nil
  then show ?case
    by (simp add: findOpen_no_tag inert_def)
next
  case (Cons c cs)
  then have gt: "untilGt (cs @ we)
      = map_option (\<lambda>(inside, after). (inside, after @ we)) (untilGt cs)"
    by (intro untilGt_append) (simp add: inert_def)
  show ?case
    using Cons by (cases "untilGt cs") (auto simp: gt)
qed

lemma closeAt_append:
  "inert we \<Longrightarrow> s \<noteq> [] \<Longrightarrow>
     closeAt tag (s @ we) = map_option (\<lambda>after. after @ we) (closeAt tag s)"
proof -
  assume we: "inert we" and s: "s \<noteq> []"
  then obtain a r where ar: "s = a # r"
    by (cases s) auto
  show ?thesis
  proof (cases r)
    case Nil
    with ar we show ?thesis
      by (cases we) (auto simp: closeAt_def inert_def)
  next
    case (Cons b t)
    from we have gt: "untilGt (t @ we)
        = map_option (\<lambda>(inside, after). (inside, after @ we)) (untilGt t)"
      by (intro untilGt_append) (simp add: inert_def)
    show ?thesis
      unfolding ar Cons by (cases "untilGt t") (auto simp: closeAt_def gt)
  qed
qed

lemma findClose_no_tag: "CHR ''<'' \<notin> set s \<Longrightarrow> findClose tag s = None"
proof (induction s)
  case Nil
  then show ?case by simp
next
  case (Cons c cs)
  then have "closeAt tag (c # cs) = None"
    by (auto simp: closeAt_def split: list.splits)
  with Cons show ?case by simp
qed

lemma findClose_append:
  "inert we \<Longrightarrow>
     findClose tag (s @ we)
       = map_option (\<lambda>(content, after). (content, after @ we)) (findClose tag s)"
proof (induction s)
  case Nil
  then show ?case
    by (simp add: findClose_no_tag inert_def)
next
  case (Cons c cs)
  from Cons.prems have "closeAt tag ((c # cs) @ we)
      = map_option (\<lambda>after. after @ we) (closeAt tag (c # cs))"
    by (intro closeAt_append) simp_all
  then have at: "closeAt tag (c # cs @ we) = map_option (\<lambda>after. after @ we) (closeAt tag (c # cs))"
    by simp
  show ?case
    using Cons by (cases "closeAt tag (c # cs)"; cases "findClose tag cs") (auto simp: at)
qed

lemma execTag_around:
  assumes "inert before" and "inert after"
  shows "execTag tag (before @ s @ after)
           = map_option (\<lambda>(content, rest). (content, rest @ after)) (execTag tag s)"
proof -
  have "findOpen tag (before @ s @ after) = map_option (\<lambda>r. r @ after) (findOpen tag s)"
    using assms by (simp add: findOpen_skip findOpen_append inert_def)
  then show ?thesis
    using assms(2)
    by (cases "findOpen tag s") (simp_all add: execTag_def findClose_append)
qed

lemma getAllTagContents_append:
  "inert we \<Longrightarrow> getAllTagContents (s @ we) tag = getAllTagContents s tag"
proof (induction s tag rule: getAllTagContents.induct)
  case (1 xml tag)
  have ex: "execTag tag (xml @ we)
      = map_option (\<lambda>(content, rest). (content, rest @ we)) (execTag tag xml)"
    using execTag_around [of "[]" we tag xml] 1(2) by (simp add: inert_simps)
  show ?case
  proof (cases "execTag tag xml")
    case None
    with ex show ?thesis
      by (simp add: getAllTagContents.simps [of "xml @ we"] getAllTagContents.simps [of xml])
  next
    case (Some cr)
    obtain content rest where cr: "cr = (content, rest)"
      by (cases cr)
    from 1(1) [OF Some [unfolded cr] refl 1(2)] ex Some cr show ?thesis
      by (simp add: getAllTagContents.simps [of "xml @ we"] getAllTagContents.simps [of xml])
  qed
qed

lemma getAllTagContents_trim: "getAllTagContents (trim s) tag = getAllTagContents s tag"
proof -
  obtain before after where sp: "s = before @ trim s @ after" "inert before" "inert after"
    using trim_split by blast
  have "execTag tag (before @ trim s @ after) = execTag tag ([] @ trim s @ after)"
    using sp(2,3) by (simp only: execTag_around inert_simps(1))
  then have "getAllTagContents (before @ trim s @ after) tag
      = getAllTagContents (trim s @ after) tag"
    by (simp add: getAllTagContents.simps [of "before @ trim s @ after"]
        getAllTagContents.simps [of "trim s @ after"])
  with sp show ?thesis
    by (simp add: getAllTagContents_append)
qed

lemma getTagContent_trim: "getTagContent (trim s) tag = getTagContent s tag"
  by (simp add: getTagContent_first getAllTagContents_trim)

subsection \<open>Documents as token lists\<close>

text \<open>
  A document without stray angle brackets is a list of tokens: character data without
  \<open><\<close>, and markup, written \<open><\<close>, a text without \<open><\<close> and \<open>>\<close>, \<open>>\<close>. On such a document
  the expression of \<open>getAllTagContents\<close> works token by token: it skips to the first markup
  token whose text matches the opening pattern, then takes the tokens up to the first markup
  token that starts with \<open>/\<close> and whose text after it matches the closing pattern.
\<close>

datatype token = Chars string | Tag string

fun renderToken :: "token \<Rightarrow> string" where
  "renderToken (Chars t) = t"
| "renderToken (Tag inside) = CHR ''<'' # inside @ ''>''"

definition renderTokens :: "token list \<Rightarrow> string" where
  "renderTokens ts = concat (map renderToken ts)"

fun wellFormedToken :: "token \<Rightarrow> bool" where
  "wellFormedToken (Chars t) = (CHR ''<'' \<notin> set t)"
| "wellFormedToken (Tag inside) = (CHR ''<'' \<notin> set inside \<and> CHR ''>'' \<notin> set inside)"

fun opens :: "string \<Rightarrow> token \<Rightarrow> bool" where
  "opens tag (Chars t) = False"
| "opens tag (Tag inside) = openMatch tag inside"

fun closes :: "string \<Rightarrow> token \<Rightarrow> bool" where
  "closes tag (Chars t) = False"
| "closes tag (Tag []) = False"
| "closes tag (Tag (ch # name)) = (ch = CHR ''/'' \<and> closeMatch tag name)"

definition execTokens :: "string \<Rightarrow> token list \<Rightarrow> (token list \<times> token list) option" where
  "execTokens tag ts =
     (case dropWhile (\<lambda>k. \<not> opens tag k) ts of
        [] \<Rightarrow> None
      | _ # r \<Rightarrow>
          (case dropWhile (\<lambda>k. \<not> closes tag k) r of
             [] \<Rightarrow> None
           | _ # rest \<Rightarrow> Some (takeWhile (\<lambda>k. \<not> closes tag k) r, rest)))"

lemma execTokens_shorter: "execTokens tag ts = Some (content, rest) \<Longrightarrow> length rest < length ts"
proof -
  assume a: "execTokens tag ts = Some (content, rest)"
  then obtain x r y where r: "dropWhile (\<lambda>k. \<not> opens tag k) ts = x # r"
      and rest: "dropWhile (\<lambda>k. \<not> closes tag k) r = y # rest"
    by (auto simp: execTokens_def split: list.splits)
  have "length rest < length (dropWhile (\<lambda>k. \<not> closes tag k) r)"
    by (simp add: rest)
  also have "\<dots> \<le> length r"
    by (rule length_dropWhile_le)
  also have "\<dots> < length (dropWhile (\<lambda>k. \<not> opens tag k) ts)"
    by (simp add: r)
  also have "\<dots> \<le> length ts"
    by (rule length_dropWhile_le)
  finally show ?thesis .
qed

function scanAll :: "string \<Rightarrow> token list \<Rightarrow> token list list" where
  "scanAll tag ts =
     (case execTokens tag ts of
        None \<Rightarrow> []
      | Some (content, rest) \<Rightarrow> content # scanAll tag rest)"
  by pat_completeness auto
termination scanAll
  by (relation "measure (\<lambda>(tag, ts). length ts)") (auto dest: execTokens_shorter)

declare scanAll.simps [simp del]

lemma renderTokens_simps:
  "renderTokens [] = []" "renderTokens (k # ts) = renderToken k @ renderTokens ts"
  "renderTokens (ts @ us) = renderTokens ts @ renderTokens us"
  by (simp_all add: renderTokens_def)

lemma untilGt_tag:
  "CHR ''>'' \<notin> set inside \<Longrightarrow> untilGt (inside @ CHR ''>'' # rest) = Some (inside, rest)"
proof -
  assume "CHR ''>'' \<notin> set inside"
  then have a: "\<And>x. x \<in> set inside \<Longrightarrow> x \<noteq> CHR ''>''"
    by auto
  have "dropWhile (\<lambda>c. c \<noteq> CHR ''>'') (inside @ CHR ''>'' # rest) = CHR ''>'' # rest"
    using a by (simp add: dropWhile_append2)
  moreover have "takeWhile (\<lambda>c. c \<noteq> CHR ''>'') (inside @ CHR ''>'' # rest) = inside"
    using a by (simp add: takeWhile_append2)
  ultimately show ?thesis
    by (simp only: untilGt_def list.case)
qed

lemma findOpen_token:
  assumes "wellFormedToken k"
  shows "findOpen tag (renderToken k @ s) = (if opens tag k then Some s else findOpen tag s)"
proof (cases k)
  case (Chars t)
  with assms show ?thesis
    by (simp add: findOpen_skip)
next
  case (Tag inside)
  with assms have gt: "untilGt (inside @ CHR ''>'' # s) = Some (inside, s)"
    by (simp add: untilGt_tag)
  have "findOpen tag (inside @ CHR ''>'' # s) = findOpen tag s"
    using findOpen_skip [of "inside @ ''>''" tag s] assms Tag by simp
  with Tag gt show ?thesis
    by simp
qed

lemma findOpen_tokens:
  "list_all wellFormedToken ts \<Longrightarrow>
     findOpen tag (renderTokens ts)
       = (case dropWhile (\<lambda>k. \<not> opens tag k) ts of
            [] \<Rightarrow> None
          | _ # r \<Rightarrow> Some (renderTokens r))"
proof (induction ts)
  case Nil
  then show ?case by (simp add: renderTokens_simps)
next
  case (Cons k ts)
  then show ?case
    by (simp add: renderTokens_simps findOpen_token)
qed

lemma findClose_skip:
  "CHR ''<'' \<notin> set ws \<Longrightarrow>
     findClose tag (ws @ s) = map_option (\<lambda>(content, after). (ws @ content, after)) (findClose tag s)"
proof (induction ws)
  case Nil
  then show ?case
    by (simp add: option.map_ident split_def)
next
  case (Cons c ws)
  then have "closeAt tag (c # ws @ s) = None"
    by (auto simp: closeAt_def split: list.splits)
  with Cons show ?case
    by (cases "findClose tag s") auto
qed

lemma findClose_token:
  assumes "wellFormedToken k"
  shows "findClose tag (renderToken k @ s)
           = (if closes tag k then Some ([], s)
              else map_option (\<lambda>(content, after). (renderToken k @ content, after))
                     (findClose tag s))"
proof (cases k)
  case (Chars t)
  with assms show ?thesis
    by (simp add: findClose_skip)
next
  case (Tag inside)
  have tail: "findClose tag (inside @ CHR ''>'' # s)
      = map_option (\<lambda>(content, after). (inside @ CHR ''>'' # content, after)) (findClose tag s)"
    using findClose_skip [of "inside @ ''>''" tag s] assms Tag by simp
  show ?thesis
  proof (cases inside)
    case Nil
    have "closeAt tag (CHR ''<'' # CHR ''>'' # s) = None"
      by (simp add: closeAt_def)
    with Tag Nil tail show ?thesis
      by (cases "findClose tag s") auto
  next
    case (Cons ch name)
    show ?thesis
    proof (cases "ch = CHR ''/''")
      case True
      from assms Tag Cons have "untilGt (name @ CHR ''>'' # s) = Some (name, s)"
        by (simp add: untilGt_tag)
      then have "closeAt tag (CHR ''<'' # CHR ''/'' # name @ CHR ''>'' # s)
          = (if closeMatch tag name then Some s else None)"
        by (simp add: closeAt_def)
      with Tag Cons True tail show ?thesis
        by (cases "findClose tag s") auto
    next
      case False
      then have "closeAt tag (CHR ''<'' # ch # name @ CHR ''>'' # s) = None"
        by (simp add: closeAt_def)
      with Tag Cons False tail show ?thesis
        by (cases "findClose tag s") auto
    qed
  qed
qed

lemma findClose_tokens:
  "list_all wellFormedToken ts \<Longrightarrow>
     findClose tag (renderTokens ts)
       = (case dropWhile (\<lambda>k. \<not> closes tag k) ts of
            [] \<Rightarrow> None
          | _ # rest \<Rightarrow>
              Some (renderTokens (takeWhile (\<lambda>k. \<not> closes tag k) ts), renderTokens rest))"
proof (induction ts)
  case Nil
  then show ?case by (simp add: renderTokens_simps)
next
  case (Cons k ts)
  then show ?case
    by (cases "dropWhile (\<lambda>k. \<not> closes tag k) ts")
      (simp_all add: renderTokens_simps findClose_token del: dropWhile_eq_Nil_conv)
qed

lemma execTag_tokens:
  assumes "list_all wellFormedToken ts"
  shows "execTag tag (renderTokens ts)
           = map_option (\<lambda>(content, rest). (renderTokens content, renderTokens rest))
               (execTokens tag ts)"
proof (cases "dropWhile (\<lambda>k. \<not> opens tag k) ts")
  case Nil
  with assms show ?thesis
    by (simp add: execTag_def execTokens_def findOpen_tokens del: dropWhile_eq_Nil_conv)
next
  case (Cons x r)
  have "set r \<subseteq> set ts"
    using set_dropWhileD [of _ "\<lambda>k. \<not> opens tag k" ts] Cons by auto
  with assms have "list_all wellFormedToken r"
    by (auto simp: list_all_iff)
  with assms Cons show ?thesis
    by (cases "dropWhile (\<lambda>k. \<not> closes tag k) r")
      (simp_all add: execTag_def execTokens_def findOpen_tokens findClose_tokens
        del: dropWhile_eq_Nil_conv)
qed

lemma execTokens_wellFormed:
  assumes "execTokens tag ts = Some (content, rest)" and "list_all wellFormedToken ts"
  shows "list_all wellFormedToken rest"
proof -
  from assms(1) obtain x r y where r: "dropWhile (\<lambda>k. \<not> opens tag k) ts = x # r"
      and rest: "dropWhile (\<lambda>k. \<not> closes tag k) r = y # rest"
    by (auto simp: execTokens_def split: list.splits)
  have "set rest \<subseteq> set r"
    using set_dropWhileD [of _ "\<lambda>k. \<not> closes tag k" r] rest by auto
  moreover have "set r \<subseteq> set ts"
    using set_dropWhileD [of _ "\<lambda>k. \<not> opens tag k" ts] r by auto
  ultimately show ?thesis
    using assms(2) by (auto simp: list_all_iff)
qed

lemma getAllTagContents_tokens:
  "list_all wellFormedToken ts \<Longrightarrow>
     getAllTagContents (renderTokens ts) tag
       = map (\<lambda>content. trim (renderTokens content)) (scanAll tag ts)"
proof (induction tag ts rule: scanAll.induct)
  case (1 tag ts)
  show ?case
  proof (cases "execTokens tag ts")
    case None
    with 1(2) show ?thesis
      by (simp add: getAllTagContents.simps [of "renderTokens ts"] scanAll.simps [of tag ts]
          execTag_tokens)
  next
    case (Some cr)
    obtain content rest where cr: "cr = (content, rest)"
      by (cases cr)
    from Some cr 1(2) have "list_all wellFormedToken rest"
      using execTokens_wellFormed by blast
    from 1(1) [OF Some [unfolded cr] refl this] Some cr 1(2) show ?thesis
      by (simp add: getAllTagContents.simps [of "renderTokens ts"] scanAll.simps [of tag ts]
          execTag_tokens)
  qed
qed

subsection \<open>Documents as trees\<close>

text \<open>
  A node of a document: character data, or one markup token that is not the start or the end
  of an element with content (a declaration, a comment, an empty-element tag), or an element
  with its name as written (prefix included), the rest of its start tag, and its children.
\<close>

datatype node = Text string | Markup string | Element string string "node list"

fun renderNode :: "node \<Rightarrow> string" where
  "renderNode (Text t) = t"
| "renderNode (Markup m) = ''<'' @ m @ ''>''"
| "renderNode (Element name attributes children) =
     ''<'' @ name @ attributes @ ''>'' @ concat (map renderNode children) @ ''</'' @ name @ ''>''"

definition render :: "node list \<Rightarrow> string" where
  "render ns = concat (map renderNode ns)"

fun wellFormed :: "node \<Rightarrow> bool" where
  "wellFormed (Text t) = (CHR ''<'' \<notin> set t)"
| "wellFormed (Markup m) = (CHR ''<'' \<notin> set m \<and> CHR ''>'' \<notin> set m)"
| "wellFormed (Element name attributes children) =
     (CHR ''<'' \<notin> set (name @ attributes) \<and> CHR ''>'' \<notin> set (name @ attributes) \<and>
      list_all wellFormed children)"

text \<open>The local name of an element: its name without the namespace prefix.\<close>

definition localName :: "string \<Rightarrow> string" where
  "localName name = (case dropWhile (\<lambda>ch. ch \<noteq> CHR '':'') name of [] \<Rightarrow> name | _ # l \<Rightarrow> l)"

definition named :: "string \<Rightarrow> string \<Rightarrow> bool" where
  "named tag name = (localName name = tag)"

text \<open>
  The elements with a given local name in a list of nodes, in document order; the children
  of each are returned. Elements of that name inside such an element are not looked for.
\<close>

fun found :: "string \<Rightarrow> node \<Rightarrow> node list list" where
  "found tag (Text t) = []"
| "found tag (Markup m) = []"
| "found tag (Element name attributes children) =
     (if named tag name then [children] else concat (map (found tag) children))"

definition elementsNamed :: "string \<Rightarrow> node list \<Rightarrow> node list list" where
  "elementsNamed tag ns = concat (map (found tag) ns)"

definition firstNamed :: "string \<Rightarrow> node list \<Rightarrow> node list option" where
  "firstNamed tag ns = (case elementsNamed tag ns of [] \<Rightarrow> None | children # _ \<Rightarrow> Some children)"

text \<open>The content of an element as text, without the white space around it.\<close>

definition textOf :: "node list \<Rightarrow> string" where
  "textOf children = trim (render children)"

fun tokens :: "node \<Rightarrow> token list" where
  "tokens (Text t) = [Chars t]"
| "tokens (Markup m) = [Tag m]"
| "tokens (Element name attributes children) =
     Tag (name @ attributes) # concat (map tokens children) @ [Tag (CHR ''/'' # name)]"

definition tokensAll :: "node list \<Rightarrow> token list" where
  "tokensAll ns = concat (map tokens ns)"

text \<open>
  A node is regular for a tag when the expression for that tag finds in it the elements of
  that local name and nothing else: no markup of any other node matches the opening
  pattern, and inside an element of that name no markup matches the closing pattern (so
  elements of that name are not nested).
\<close>

fun regular :: "string \<Rightarrow> node \<Rightarrow> bool" where
  "regular tag (Text t) = True"
| "regular tag (Markup m) = (\<not> opens tag (Tag m))"
| "regular tag (Element name attributes children) =
     (if named tag name
      then list_all (\<lambda>k. \<not> closes tag k) (concat (map tokens children))
      else \<not> opens tag (Tag (name @ attributes)) \<and> \<not> opens tag (Tag (CHR ''/'' # name)) \<and>
           list_all (regular tag) children)"

lemma tokensAll_simps:
  "tokensAll [] = []" "tokensAll (n # ns) = tokens n @ tokensAll ns"
  by (simp_all add: tokensAll_def)

lemma elementsNamed_simps:
  "elementsNamed tag [] = []" "elementsNamed tag (n # ns) = found tag n @ elementsNamed tag ns"
  by (simp_all add: elementsNamed_def)

lemma render_tokens: "renderTokens (tokens n) = renderNode n"
proof (induction n)
  case (Element name attributes children)
  then have "concat (map (\<lambda>x. renderTokens (tokens x)) children) = concat (map renderNode children)"
    by (induction children) simp_all
  moreover have "renderTokens (concat (map tokens children))
      = concat (map (\<lambda>x. renderTokens (tokens x)) children)"
    by (induction children) (simp_all add: renderTokens_simps)
  ultimately show ?case
    by (simp add: renderTokens_simps)
qed (simp_all add: renderTokens_simps)

lemma render_tokensAll: "renderTokens (tokensAll ns) = render ns"
  by (induction ns) (simp_all add: tokensAll_simps renderTokens_simps render_tokens render_def)

lemma wellFormed_tokens: "wellFormed n \<Longrightarrow> list_all wellFormedToken (tokens n)"
proof (induction n)
  case (Element name attributes children)
  then have "list_all wellFormedToken (concat (map tokens children))"
    by (induction children) simp_all
  with Element.prems show ?case
    by simp
qed simp_all

lemma wellFormed_tokensAll: "list_all wellFormed ns \<Longrightarrow> list_all wellFormedToken (tokensAll ns)"
  by (induction ns) (simp_all add: tokensAll_simps wellFormed_tokens)

lemma ciEqualChar_refl: "ciEqualChar a a"
  by (simp add: ciEqualChar_def)

lemma ciPrefix_append: "ciPrefix tag (tag @ rest)"
  by (induction tag) (simp_all add: ciEqualChar_refl)

lemma ciEqual_refl: "ciEqual tag tag"
  by (induction tag) (simp_all add: ciEqualChar_refl)

lemma openMatch_prefixed: "CHR '':'' \<notin> set p \<Longrightarrow> openMatch tag (p @ CHR '':'' # tag @ rest)"
  by (induction p) (auto simp: ciPrefix_append)

lemma openMatch_plain: "openMatch tag (tag @ rest)"
  using ciPrefix_append [of tag rest] by (cases "tag @ rest") auto

lemma closeMatch_prefixed: "CHR '':'' \<notin> set p \<Longrightarrow> closeMatch tag (p @ CHR '':'' # tag)"
  by (induction p) (auto simp: ciEqual_refl)

lemma closeMatch_plain: "closeMatch tag tag"
  using ciEqual_refl [of tag] by (cases tag) auto

lemma named_cases:
  assumes "named tag name"
  shows "name = tag \<or> (\<exists>p. CHR '':'' \<notin> set p \<and> name = p @ CHR '':'' # tag)"
proof (cases "dropWhile (\<lambda>ch. ch \<noteq> CHR '':'') name")
  case Nil
  with assms show ?thesis
    by (simp add: named_def localName_def)
next
  case (Cons x l)
  then have "x = CHR '':''"
    using hd_dropWhile [of "\<lambda>ch. ch \<noteq> CHR '':''" name] by auto
  moreover have "name = takeWhile (\<lambda>ch. ch \<noteq> CHR '':'') name @ x # l"
    using takeWhile_dropWhile_id [of "\<lambda>ch. ch \<noteq> CHR '':''" name] Cons by simp
  moreover have "CHR '':'' \<notin> set (takeWhile (\<lambda>ch. ch \<noteq> CHR '':'') name)"
    using set_takeWhileD by fastforce
  moreover from assms Cons have "l = tag"
    by (simp add: named_def localName_def)
  ultimately show ?thesis
    by blast
qed

lemma named_opens: "named tag name \<Longrightarrow> opens tag (Tag (name @ attributes))"
  using named_cases [of tag name] openMatch_plain openMatch_prefixed by fastforce

lemma named_closes: "named tag name \<Longrightarrow> closes tag (Tag (CHR ''/'' # name))"
  using named_cases [of tag name] closeMatch_plain closeMatch_prefixed by fastforce

lemma scanAll_skip: "\<not> opens tag k \<Longrightarrow> scanAll tag (k # ts) = scanAll tag ts"
  by (simp add: scanAll.simps [of tag "k # ts"] scanAll.simps [of tag ts] execTokens_def)

lemma scanAll_take:
  assumes "opens tag k" and "list_all (\<lambda>x. \<not> closes tag x) content" and "closes tag e"
  shows "scanAll tag (k # content @ e # rest) = content # scanAll tag rest"
proof -
  from assms(2) have c: "\<And>x. x \<in> set content \<Longrightarrow> \<not> closes tag x"
    by (simp add: list_all_iff)
  have "dropWhile (\<lambda>k. \<not> closes tag k) (content @ e # rest) = e # rest"
    using c assms(3) by (simp add: dropWhile_append2)
  moreover have "takeWhile (\<lambda>k. \<not> closes tag k) (content @ e # rest) = content"
    using c assms(3) by (simp add: takeWhile_append2)
  ultimately have "execTokens tag (k # content @ e # rest) = Some (content, rest)"
    using assms(1) by (simp add: execTokens_def)
  then show ?thesis
    by (simp add: scanAll.simps [of tag "k # content @ e # rest"])
qed

lemma scanAll_node:
  "regular tag n \<Longrightarrow>
     scanAll tag (tokens n @ rest) = map tokensAll (found tag n) @ scanAll tag rest"
proof (induction n arbitrary: rest)
  case (Text t)
  show ?case
    by (simp add: scanAll_skip)
next
  case (Markup m)
  then show ?case
    by (simp add: scanAll_skip)
next
  case (Element name attributes children)
  show ?case
  proof (cases "named tag name")
    case True
    with Element.prems have "list_all (\<lambda>k. \<not> closes tag k) (tokensAll children)"
      by (simp add: tokensAll_def)
    from scanAll_take [OF named_opens [OF True] this named_closes [OF True]] True
    show ?thesis
      by (simp add: tokensAll_def)
  next
    case False
    with Element.prems have no: "\<not> opens tag (Tag (name @ attributes))"
        "\<not> opens tag (Tag (CHR ''/'' # name))" and reg: "list_all (regular tag) children"
      by simp_all
    have inner: "scanAll tag (tokensAll cs @ rest')
        = map tokensAll (elementsNamed tag cs) @ scanAll tag rest'"
      if "set cs \<subseteq> set children" for cs rest'
      using that
    proof (induction cs)
      case Nil
      show ?case
        by (simp add: tokensAll_simps elementsNamed_simps)
    next
      case (Cons x xs)
      then have x: "x \<in> set children" and xs: "set xs \<subseteq> set children"
        by simp_all
      from x reg have "regular tag x"
        by (simp add: list_all_iff)
      from Element.IH [OF x this, of "tokensAll xs @ rest'"] Cons.IH [OF xs] show ?case
        by (simp add: tokensAll_simps elementsNamed_simps)
    qed
    have "scanAll tag (tokens (Element name attributes children) @ rest)
        = scanAll tag (tokensAll children @ Tag (CHR ''/'' # name) # rest)"
      using no(1) scanAll_skip [of tag "Tag (name @ attributes)"] by (simp add: tokensAll_def)
    also have "\<dots> = map tokensAll (elementsNamed tag children)
        @ scanAll tag (Tag (CHR ''/'' # name) # rest)"
      by (rule inner) simp
    also have "scanAll tag (Tag (CHR ''/'' # name) # rest) = scanAll tag rest"
      using no(2) by (rule scanAll_skip)
    finally show ?thesis
      using False by (simp add: elementsNamed_def)
  qed
qed

lemma scanAll_nodes:
  "list_all (regular tag) ns \<Longrightarrow> scanAll tag (tokensAll ns) = map tokensAll (elementsNamed tag ns)"
proof (induction ns)
  case Nil
  show ?case
    by (simp add: tokensAll_simps elementsNamed_simps scanAll.simps [of tag "[]"] execTokens_def)
next
  case (Cons n ns)
  then show ?case
    using scanAll_node [of tag n "tokensAll ns"]
    by (simp add: tokensAll_simps elementsNamed_simps)
qed

lemma getAllTagContents_render:
  assumes "list_all wellFormed ns" and "list_all (regular tag) ns"
  shows "getAllTagContents (render ns) tag = map textOf (elementsNamed tag ns)"
proof -
  have "getAllTagContents (renderTokens (tokensAll ns)) tag
      = map (\<lambda>content. trim (renderTokens content)) (scanAll tag (tokensAll ns))"
    using assms(1) by (intro getAllTagContents_tokens wellFormed_tokensAll)
  then show ?thesis
    using assms(2) by (simp add: scanAll_nodes render_tokensAll textOf_def comp_def)
qed

lemma getAllTagContents_textOf:
  "list_all wellFormed ns \<Longrightarrow> list_all (regular tag) ns \<Longrightarrow>
     getAllTagContents (textOf ns) tag = map textOf (elementsNamed tag ns)"
  by (simp add: textOf_def getAllTagContents_trim getAllTagContents_render [unfolded textOf_def])

lemma getTagContent_textOf:
  "list_all wellFormed ns \<Longrightarrow> list_all (regular tag) ns \<Longrightarrow>
     getTagContent (textOf ns) tag
       = (case firstNamed tag ns of None \<Rightarrow> [] | Some children \<Rightarrow> textOf children)"
  by (simp add: getTagContent_first getAllTagContents_textOf firstNamed_def split: list.splits)

subsection \<open>The parser against the specification\<close>

text \<open>
  The specification's words, read on the tree. A property group is successful when its
  status is accepted and its \<open>prop\<close> element has a non-empty text. As worded, a status is
  accepted when the element is absent or its text contains \<open>" 200 "\<close>; the amended reading
  also accepts a status element whose text is empty. A response element with an \<open>href\<close>
  element of non-empty text selects its first successful property group, and nothing when it
  has none. The selection of a document lists, in the order of the response elements, the
  \<open>href\<close> text and the \<open>prop\<close> text of every response element that selects a group; the
  parser is to emit one record for each of them, in that order.
\<close>

definition statusAsWorded :: "string option \<Rightarrow> bool" where
  "statusAsWorded st = (case st of None \<Rightarrow> True | Some t \<Rightarrow> includesStr t '' 200 '')"

definition statusAmended :: "string option \<Rightarrow> bool" where
  "statusAmended st = (case st of None \<Rightarrow> True | Some t \<Rightarrow> t = [] \<or> includesStr t '' 200 '')"

definition propText :: "node list \<Rightarrow> string" where
  "propText propstat =
     (case firstNamed ''prop'' propstat of None \<Rightarrow> [] | Some children \<Rightarrow> textOf children)"

definition successfulGroup :: "(string option \<Rightarrow> bool) \<Rightarrow> node list \<Rightarrow> bool" where
  "successfulGroup accepted propstat =
     (accepted (map_option textOf (firstNamed ''status'' propstat)) \<and> propText propstat \<noteq> [])"

definition selectionOfElement ::
  "(string option \<Rightarrow> bool) \<Rightarrow> node list \<Rightarrow> (string \<times> string) list" where
  "selectionOfElement accepted response =
     (case firstNamed ''href'' response of
        None \<Rightarrow> []
      | Some h \<Rightarrow>
          if textOf h = [] then []
          else
            (case find (successfulGroup accepted) (elementsNamed ''propstat'' response) of
               None \<Rightarrow> []
             | Some propstat \<Rightarrow> [(textOf h, propText propstat)]))"

definition selectionOfDocument ::
  "(string option \<Rightarrow> bool) \<Rightarrow> node list \<Rightarrow> (string \<times> string) list" where
  "selectionOfDocument accepted document =
     concat (map (selectionOfElement accepted) (elementsNamed ''response'' document))"

text \<open>
  The documents on which the parser's expressions find the elements of the specification:
  no stray angle brackets, and every list of nodes the parser searches is regular for the
  tag it is searched for.
\<close>

definition regularDocument :: "node list \<Rightarrow> bool" where
  "regularDocument document =
     (list_all wellFormed document \<and> list_all (regular ''response'') document \<and>
      list_all
        (\<lambda>response.
           list_all (regular ''href'') response \<and> list_all (regular ''propstat'') response \<and>
           list_all
             (\<lambda>propstat.
                list_all (regular ''status'') propstat \<and> list_all (regular ''prop'') propstat)
             (elementsNamed ''propstat'' response))
        (elementsNamed ''response'' document))"

lemma found_wellFormed:
  "wellFormed n \<Longrightarrow> children \<in> set (found tag n) \<Longrightarrow> list_all wellFormed children"
proof (induction n)
  case (Element name attributes cs)
  show ?case
  proof (cases "named tag name")
    case True
    with Element.prems show ?thesis
      by simp
  next
    case False
    with Element.prems obtain x where "x \<in> set cs" and "children \<in> set (found tag x)"
      by auto
    moreover from this Element.prems(1) have "wellFormed x"
      by (simp add: list_all_iff)
    ultimately show ?thesis
      using Element.IH by blast
  qed
qed simp_all

lemma elementsNamed_wellFormed:
  "list_all wellFormed ns \<Longrightarrow> children \<in> set (elementsNamed tag ns)
     \<Longrightarrow> list_all wellFormed children"
proof -
  assume wf: "list_all wellFormed ns" and "children \<in> set (elementsNamed tag ns)"
  then obtain n where "n \<in> set ns" and "children \<in> set (found tag n)"
    by (auto simp: elementsNamed_def)
  moreover from this wf have "wellFormed n"
    by (simp add: list_all_iff)
  ultimately show ?thesis
    by (intro found_wellFormed)
qed

lemma find_map: "find P (map f xs) = map_option f (find (\<lambda>x. P (f x)) xs)"
  by (induction xs) simp_all

lemma successfulPropstat_textOf:
  assumes "list_all wellFormed propstat"
    and "list_all (regular ''status'') propstat" and "list_all (regular ''prop'') propstat"
  shows "successfulPropstat (textOf propstat) = successfulGroup statusAmended propstat"
    and "getTagContent (textOf propstat) ''prop'' = propText propstat"
  using assms
  by (auto simp: successfulPropstat_def successfulGroup_def statusAmended_def propText_def
      getTagContent_textOf split: option.splits)

lemma blocksOfResponse_textOf:
  assumes "list_all wellFormed response"
    and "list_all (regular ''href'') response" and "list_all (regular ''propstat'') response"
    and "list_all
           (\<lambda>propstat.
              list_all (regular ''status'') propstat \<and> list_all (regular ''prop'') propstat)
           (elementsNamed ''propstat'' response)"
  shows "blocksOfResponse (textOf response) = selectionOfElement statusAmended response"
proof -
  have each: "successfulPropstat (textOf p) = successfulGroup statusAmended p"
      "getTagContent (textOf p) ''prop'' = propText p"
    if "p \<in> set (elementsNamed ''propstat'' response)" for p
    using that assms(1,4) elementsNamed_wellFormed [of response p "''propstat''"]
    by (simp_all add: list_all_iff successfulPropstat_textOf)
  have "find (\<lambda>p. successfulPropstat (textOf p)) (elementsNamed ''propstat'' response)
      = find (successfulGroup statusAmended) (elementsNamed ''propstat'' response)"
    using each(1) by (intro find_cong) simp_all
  then have f: "find successfulPropstat (map textOf (elementsNamed ''propstat'' response))
      = map_option textOf (find (successfulGroup statusAmended) (elementsNamed ''propstat'' response))"
    by (simp add: find_map)
  have sel: "getTagContent (textOf p) ''prop'' = propText p"
    if "find (successfulGroup statusAmended) (elementsNamed ''propstat'' response) = Some p" for p
    using that each(2) by (auto simp: find_Some_iff)
  show ?thesis
    using assms(1-3) sel
    by (auto simp: blocksOfResponse_def selectionOfElement_def getTagContent_textOf
        getAllTagContents_textOf f split: option.splits)
qed

lemma selectedBlocks_render:
  assumes "regularDocument document"
  shows "selectedBlocks (render document) = selectionOfDocument statusAmended document"
proof -
  from assms have wf: "list_all wellFormed document"
      and reg: "list_all (regular ''response'') document"
      and inner: "list_all
        (\<lambda>response.
           list_all (regular ''href'') response \<and> list_all (regular ''propstat'') response \<and>
           list_all
             (\<lambda>propstat.
                list_all (regular ''status'') propstat \<and> list_all (regular ''prop'') propstat)
             (elementsNamed ''propstat'' response))
        (elementsNamed ''response'' document)"
    by (simp_all add: regularDocument_def)
  have responses: "getAllTagContents (render document) ''response''
      = map textOf (elementsNamed ''response'' document)"
    using wf reg by (rule getAllTagContents_render)
  have each: "blocksOfResponse (textOf r) = selectionOfElement statusAmended r"
    if "r \<in> set (elementsNamed ''response'' document)" for r
    using that inner elementsNamed_wellFormed [OF wf that]
    by (intro blocksOfResponse_textOf) (simp_all add: list_all_iff)
  have "map (\<lambda>r. blocksOfResponse (textOf r)) (elementsNamed ''response'' document)
      = map (selectionOfElement statusAmended) (elementsNamed ''response'' document)"
    using each by (intro map_cong) simp_all
  then show ?thesis
    unfolding selectedBlocks_def selectionOfDocument_def responses map_map comp_def
    by (rule arg_cong)
qed

text \<open>
  Claim C6, refuted as stated. In the first document the only property group has an empty
  status element: as worded its status is neither absent nor does it contain \<open>" 200 "\<close>, and
  nothing is selected, yet the parser emits a record. In the second, which is not regular,
  the status is \<open>404\<close> and an element of another name, \<open>mystatus\<close>, holds \<open>200\<close>; the parser's
  expression for \<open>status\<close> takes that element, and a record is emitted again.
\<close>

definition emptyStatus :: "node list" where
  "emptyStatus =
     [Element ''response'' []
        [Element ''href'' [] [Text ''/dav/b''],
         Element ''propstat'' []
           [Element ''status'' [] [], Element ''prop'' [] [Text ''y'']]]]"

definition otherStatus :: "node list" where
  "otherStatus =
     [Element ''response'' []
        [Element ''href'' [] [Text ''/dav/b''],
         Element ''propstat'' []
           [Element ''mystatus'' [] [Text ''HTTP/1.1 200 OK''],
            Element ''status'' [] [Text ''HTTP/1.1 404 Not Found''],
            Element ''prop'' [] [Text ''y'']]]]"

theorem status_counterexample:
  "regularDocument emptyStatus \<and>
   render emptyStatus
     = ''<response><href>/dav/b</href><propstat><status></status><prop>y</prop></propstat>'' @
       ''</response>'' \<and>
   parseMultiStatus (respondWith notFound) exampleClient (render emptyStatus) = Inr [statB] \<and>
   selectionOfDocument statusAsWorded emptyStatus = [] \<and>
   \<not> regularDocument otherStatus \<and>
   parseMultiStatus (respondWith notFound) exampleClient (render otherStatus) = Inr [statB] \<and>
   selectionOfDocument statusAsWorded otherStatus = []"
proof -
  have "regularDocument emptyStatus"
    by code_simp
  moreover have "render emptyStatus
     = ''<response><href>/dav/b</href><propstat><status></status><prop>y</prop></propstat>'' @
       ''</response>''"
    by code_simp
  moreover have
    "parseMultiStatus (respondWith notFound) exampleClient (render emptyStatus) = Inr [statB]"
    by code_simp
  moreover have "selectionOfDocument statusAsWorded emptyStatus = []"
    by code_simp
  moreover have "\<not> regularDocument otherStatus"
    by code_simp
  moreover have
    "parseMultiStatus (respondWith notFound) exampleClient (render otherStatus) = Inr [statB]"
    by code_simp
  moreover have "selectionOfDocument statusAsWorded otherStatus = []"
    by code_simp
  ultimately show ?thesis
    by blast
qed

text \<open>
  Claim C6, amended. On every regular document the parser does not throw and emits exactly
  one record for every entry of the selection, in the same order, built from the \<open>href\<close>
  text and the \<open>prop\<close> text of that entry, where a status is accepted when its element is
  absent, or its text is empty, or its text contains \<open>" 200 "\<close>. So there is one record per
  response element that has an \<open>href\<close> element of non-empty text and a successful property
  group, built from the first such group in document order, in the order of the response
  elements, and a response element without one contributes nothing. Texts are taken
  without the white space around them, and the \<open>href\<close>, \<open>status\<close> or \<open>prop\<close> element of an
  element is the first element of that local name inside it, at any depth.
\<close>

theorem parseMultiStatus_refines_spec:
  assumes "regularDocument document"
  shows "\<exists>stats. parseMultiStatus env c (render document) = Inr stats \<and>
           map Inr stats
             = map (\<lambda>(hrefText, prop). statOf env c hrefText prop)
                 (selectionOfDocument statusAmended document)"
proof -
  from responseLoop_records [of env c "[]" "getAllTagContents (render document) ''response''"]
  obtain stats where stats: "parseMultiStatus env c (render document) = Inr stats"
      "map Inr stats
         = concat (map (recordsOfResponse env c) (getAllTagContents (render document) ''response''))"
    by (auto simp: parseMultiStatus_def)
  from stats(2) have "map Inr stats
      = map (\<lambda>(h, p). statOf env c h p) (selectedBlocks (render document))"
    by (simp add: records_blocks_concat selectedBlocks_def)
  with stats(1) selectedBlocks_render [OF assms] show ?thesis
    by simp
qed

definition listing :: "node list" where
  \<open>listing =
     [Markup ''?xml version="1.0" encoding="utf-8" ?'', Text [CHR 0x0A],
      Element ''d:multistatus'' '' xmlns:d="DAV:"''
        [Text [CHR 0x0A, CHR 0x20],
         Element ''d:response'' []
           [Element ''d:href'' [] [Text ''/dav/b''],
            Element ''d:propstat'' []
              [Element ''d:status'' [] [Text ''HTTP/1.1 404 Not Found''],
               Element ''d:prop'' [] [Element ''d:getetag'' [] [Text ''e'']]],
            Element ''d:propstat'' []
              [Element ''d:status'' [] [Text ''HTTP/1.1 200 OK''],
               Element ''d:prop'' []
                 [Markup ''d:resourcetype /'',
                  Element ''d:getcontentlength'' [] [Text ''12'']]]],
         Text [CHR 0x0A, CHR 0x20],
         Element ''d:response'' []
           [Element ''d:propstat'' [] [Element ''d:prop'' [] [Text ''z'']]],
         Element ''D:response'' []
           [Element ''D:href'' [] [Text '' /dav/photos/ ''],
            Element ''D:propstat'' []
              [Element ''D:prop'' []
                 [Element ''D:resourcetype'' [] [Markup ''D:collection/'']]]],
         Text [CHR 0x0A]]]\<close>

definition photos :: WebDAVStat where
  "photos = \<lparr>filename = ''/photos'', basename = ''photos'', lastmod = [], size' = 0,
     type' = Directory, etag = None, mime = None\<rparr>"

theorem parseMultiStatus_refines_spec_witness:
  "regularDocument listing \<and>
   selectionOfDocument statusAmended listing
     = [(''/dav/b'', ''<d:resourcetype /><d:getcontentlength>12</d:getcontentlength>''),
        (''/dav/photos/'', ''<D:resourcetype><D:collection/></D:resourcetype>'')] \<and>
   parseMultiStatus (respondWith notFound) exampleClient (render listing)
     = Inr [statB\<lparr>size' := 12\<rparr>, photos]"
proof -
  have r: "regularDocument listing"
    by code_simp
  have s: "selectionOfDocument statusAmended listing
     = [(''/dav/b'', ''<d:resourcetype /><d:getcontentlength>12</d:getcontentlength>''),
        (''/dav/photos/'', ''<D:resourcetype><D:collection/></D:resourcetype>'')]"
    by code_simp
  have b: "statOf (respondWith notFound) exampleClient ''/dav/b''
      ''<d:resourcetype /><d:getcontentlength>12</d:getcontentlength>''
        = Inr (statB\<lparr>size' := 12\<rparr>)"
    by code_simp
  have p: "statOf (respondWith notFound) exampleClient ''/dav/photos/''
      ''<D:resourcetype><D:collection/></D:resourcetype>'' = Inr photos"
    by code_simp
  from parseMultiStatus_refines_spec [OF r, of "respondWith notFound" exampleClient]
  obtain stats where
    "parseMultiStatus (respondWith notFound) exampleClient (render listing) = Inr stats"
    "map Inr stats = [Inr (statB\<lparr>size' := 12\<rparr>), Inr photos :: exn + WebDAVStat]"
    by (auto simp: s b p)
  then have
    "parseMultiStatus (respondWith notFound) exampleClient (render listing)
       = Inr [statB\<lparr>size' := 12\<rparr>, photos]"
    by auto
  with r s show ?thesis
    by simp
qed

subsection \<open>Canonicalizing a canonical path\<close>

text \<open>
  A plain character is one the path state copies unchanged and that does not end a segment:
  outside the path percent-encode set and neither \<open>/\<close> nor \<open>\\<close>. A plain segment is a
  non-empty string of plain characters that is not a dot segment (\<open>.\<close>, \<open>..\<close> and their
  percent-encoded forms); a plain path is the root, or a slash followed by plain segments
  separated by single slashes.
\<close>

definition plainChar :: "char \<Rightarrow> bool" where
  "plainChar ch = (\<not> inPathSet ch \<and> ch \<notin> set [CHR ''/'', CHR 0x5C])"

definition plainSegment :: "string \<Rightarrow> bool" where
  "plainSegment s = (s \<noteq> [] \<and> list_all plainChar s \<and> \<not> isSingleDot s \<and> \<not> isDoubleDot s)"




definition joinPath :: "string list \<Rightarrow> string" where
  "joinPath segs = concat (map (\<lambda>s. CHR ''/'' # s) segs)"

lemma joinPath_splitSlash: "joinPath (splitSlash acc cs) = CHR ''/'' # acc @ cs"
  by (induction cs arbitrary: acc) (simp_all add: joinPath_def)


lemma plainChar_not_space: "plainChar ch \<Longrightarrow> \<not> isC0OrSpace ch"
proof -
  assume a: "plainChar ch"
  then have "\<not> (of_char ch :: nat) < 0x20" and "ch \<noteq> CHR 0x20"
    by (simp_all add: plainChar_def inPathSet_def inQuerySet_def inC0ControlSet_def Let_def)
  moreover have "(of_char ch :: nat) = 0x20 \<Longrightarrow> ch = CHR 0x20"
  proof -
    assume "(of_char ch :: nat) = 0x20"
    then have "(of_char ch :: nat) = of_char (CHR 0x20)"
      by simp
    then show ?thesis
      by (simp only: of_char_eq_iff)
  qed
  ultimately show ?thesis
    by (auto simp: isC0OrSpace_def)
qed

lemma plainChar_copied: "plainChar ch \<Longrightarrow> utf8PercentEncode inPathSet ch = [ch]"
  by (simp add: plainChar_def utf8PercentEncode_def)

lemma plainChar_not_separator:
  "plainChar ch \<Longrightarrow> ch \<noteq> CHR ''/'' \<and> ch \<noteq> CHR 0x5C \<and> ch \<noteq> CHR ''?'' \<and> ch \<noteq> CHR ''#''"
  by (auto simp: plainChar_def inPathSet_def inQuerySet_def)

lemma plainSegment_not_dots: "plainSegment s \<Longrightarrow> \<not> isDoubleDot s \<and> \<not> isSingleDot s"
  by (simp add: plainSegment_def)

lemma finishSegment_plain:
  "plainSegment s \<Longrightarrow> sch \<noteq> ''file'' \<Longrightarrow> finishSegment sch p s slash = p @ [s]"
  using plainSegment_not_dots [of s] by (simp add: finishSegment_def)

lemma pathState_plain_chars:
  "list_all plainChar s \<Longrightarrow> pathState sch ov p buf (s @ rest) = pathState sch ov p (buf @ s) rest"
proof (induction s arbitrary: buf)
  case Nil
  then show ?case by simp
next
  case (Cons ch s)
  then have "plainChar ch" and "list_all plainChar s"
    by simp_all
  then show ?case
    using Cons.IH [of "buf @ [ch]"] plainChar_not_separator [of ch] plainChar_copied [of ch]
    by simp
qed

lemma pathState_plain_segments:
  "plainSegment s \<Longrightarrow> list_all plainSegment segs \<Longrightarrow> sch \<noteq> ''file''
     \<Longrightarrow> pathState sch False p [] (s @ joinPath segs) = (p @ s # segs, [])"
proof (induction segs arbitrary: p s)
  case Nil
  then have "list_all plainChar s"
    by (simp add: plainSegment_def)
  then have "pathState sch False p [] (s @ []) = pathState sch False p ([] @ s) []"
    by (rule pathState_plain_chars)
  with Nil show ?case
    by (simp add: joinPath_def finishSegment_plain)
next
  case (Cons t ts)
  then have "list_all plainChar s"
    by (simp add: plainSegment_def)
  then have "pathState sch False p [] (s @ CHR ''/'' # t @ joinPath ts)
               = pathState sch False p ([] @ s) (CHR ''/'' # t @ joinPath ts)"
    by (rule pathState_plain_chars)
  also have "\<dots> = pathState sch False (p @ [s]) [] (t @ joinPath ts)"
    using Cons.prems by (simp add: finishSegment_plain)
  also have "\<dots> = ((p @ [s]) @ t # ts, [])"
    using Cons.prems by (intro Cons.IH) simp_all
  finally show ?case
    by (simp add: joinPath_def)
qed














text \<open>A plain path is read by the parser as it is written.\<close>

lemma preprocess_plain: "\<forall>ch\<in>set s. \<not> isC0OrSpace ch \<Longrightarrow> preprocess s = s"
proof -
  assume a: "\<forall>ch\<in>set s. \<not> isC0OrSpace ch"
  then have "dropWhile isC0OrSpace s = s"
    by (cases s) simp_all
  moreover from a have "dropWhile isC0OrSpace (rev s) = rev s"
    by (cases "rev s") auto
  moreover from a have "filter (\<lambda>ch. \<not> isTabOrNewline ch) s = s"
    by (auto simp: filter_id_conv isTabOrNewline_def isC0OrSpace_def)
  ultimately show ?thesis
    by (simp add: preprocess_def)
qed

lemma joinPath_chars:
  "ch \<in> set (joinPath segs) \<Longrightarrow> ch = CHR ''/'' \<or> (\<exists>s\<in>set segs. ch \<in> set s)"
  by (induction segs) (auto simp: joinPath_def)



lemma plainSegments_chars:
  assumes "plainSegment s" and "list_all plainSegment segs"
  shows "\<forall>ch\<in>set (joinPath (s # segs)). \<not> isC0OrSpace ch"
proof
  fix ch
  assume "ch \<in> set (joinPath (s # segs))"
  then consider "ch = CHR ''/''" | t where "t \<in> set (s # segs)" and "ch \<in> set t"
    using joinPath_chars by blast
  then show "\<not> isC0OrSpace ch"
  proof cases
    case 1
    then show ?thesis
      by (simp add: isC0OrSpace_def)
  next
    case 2
    with assms have "plainChar ch"
      by (auto simp: plainSegment_def list_all_iff)
    then show ?thesis
      by (rule plainChar_not_space)
  qed
qed















subsection \<open>The headers of MOVE and COPY\<close>

text \<open>
  A plain relative path: plain segments separated by single slashes, no slash in front, and
  no scheme prefix. A directory base is what the constructor leaves for a base URL with a
  host: a list of path segments that ends in the empty segment (the URL ends in a slash), no
  query, no fragment, and a serialization that parses back to the same URL.
\<close>

definition plainRelative :: "string \<Rightarrow> bool" where
  "plainRelative p = (list_all plainSegment (splitSlash [] p) \<and> \<not> hasSchemePrefix p)"

definition directoryBase :: "host_parser \<Rightarrow> url \<Rightarrow> bool" where
  "directoryBase hp b =
     (url_scheme b \<noteq> ''file'' \<and> url_host b \<noteq> None \<and> url_query b = None \<and>
      url_fragment b = None \<and>
      (case url_path b of Opaque s \<Rightarrow> False | Segments bp \<Rightarrow> bp \<noteq> [] \<and> last bp = []) \<and>
      basicParse hp (href b) None = Some b)"

text \<open>What a request shows of a transfer: method, target, and the two headers.\<close>

definition transferView :: "request \<Rightarrow> string \<times> string \<times> string option \<times> string option" where
  "transferView q =
     (req_method q, req_url q, req_headers q ''Destination'', req_headers q ''Overwrite'')"

lemma transfer_sent:
  assumes "resolveRequestURL env c fromPath = Inr u" and "resolveRequestURL env c toPath = Inr d"
  shows "map transferView (snd (transfer method what env c fromPath toPath overwrite))
           = [(method, href u, Some (href d), Some (if overwrite = Some True then ''T'' else ''F''))]"
proof -
  have "snd (transfer method what env c fromPath toPath overwrite)
      = snd (request env c method fromPath
               (Some [''Destination'' \<mapsto> href d,
                      ''Overwrite'' \<mapsto> (if overwrite = Some True then ''T'' else ''F'')])
               None)"
    using assms(2) by (simp add: transfer_def split: prod.splits sum.splits)
  then show ?thesis
    by (simp add: request_sent [OF assms(1)] transferView_def buildHeaders_per_call)
qed

lemma parseScheme_None: "\<not> hasSchemePrefix s \<Longrightarrow> parseScheme s = None"
proof (cases s)
  case Nil
  then show ?thesis
    by (simp add: parseScheme_def)
next
  case (Cons ch cs)
  assume "\<not> hasSchemePrefix s"
  with Cons show ?thesis
    by (cases "dropWhile isSchemeChar cs")
      (simp_all add: hasSchemePrefix_def parseScheme_def del: dropWhile_eq_Nil_conv)
qed

lemma joinPath_append: "joinPath (xs @ ys) = joinPath xs @ joinPath ys"
  by (simp add: joinPath_def)

lemma plainRelative_cases:
  assumes "plainRelative p"
  obtains s segs where "p = s @ joinPath segs" and "plainSegment s"
    and "list_all plainSegment segs"
proof -
  obtain s segs where sp: "splitSlash [] p = s # segs"
    using splitSlash_nonempty [of "[]" p] by (cases "splitSlash [] p") auto
  have "CHR ''/'' # p = joinPath (s # segs)"
    using joinPath_splitSlash [of "[]" p] sp by simp
  then have "p = s @ joinPath segs"
    by (simp add: joinPath_def)
  moreover from assms sp have "plainSegment s" "list_all plainSegment segs"
    by (simp_all add: plainRelative_def)
  ultimately show ?thesis
    using that by blast
qed

lemma relative_destination:
  assumes "directoryBase hp b" and "plainRelative p"
  shows "\<exists>d. URL_new hp p (Some (href b)) = Inr d \<and> href d = href b @ p"
proof -
  from assms(2) obtain s segs where p: "p = s @ joinPath segs" and s: "plainSegment s"
      and segs: "list_all plainSegment segs"
    by (rule plainRelative_cases)
  from assms(1) obtain bp where bp: "url_path b = Segments bp" "bp \<noteq> []" "last bp = []"
    by (cases "url_path b") (auto simp: directoryBase_def)
  from assms(1) have sch: "url_scheme b \<noteq> ''file''" and host: "url_host b \<noteq> None"
      and q: "url_query b = None" and f: "url_fragment b = None"
      and roundTrip: "basicParse hp (href b) None = Some b"
    by (simp_all add: directoryBase_def)
  from s obtain ch t where st: "s = ch # t" and ch: "plainChar ch"
    by (cases s) (auto simp: plainSegment_def)
  have "set p \<subseteq> set (joinPath (s # segs))"
    by (auto simp: p joinPath_def)
  then have "\<forall>x\<in>set p. \<not> isC0OrSpace x"
    using plainSegments_chars [OF s segs] by blast
  then have pre: "preprocess p = p"
    by (rule preprocess_plain)
  have ns: "parseScheme p = None"
    using assms(2) by (simp add: plainRelative_def parseScheme_None)
  define d where "d = b\<lparr>url_path := Segments (butlast bp @ s # segs)\<rparr>"
  have u: "(copyBase (emptyURL\<lparr>url_scheme := url_scheme b\<rparr>) b)\<lparr>url_query := None\<rparr> = b"
    using q f by (simp add: copyBase_def emptyURL_def)
  have "pathState (url_scheme b) False (butlast bp) [] (s @ joinPath segs)
      = (butlast bp @ s # segs, [])"
    using s segs sch by (rule pathState_plain_segments)
  then have "pathFrom b (butlast bp) [] p = d"
    by (simp add: pathFrom_def p afterPath_def d_def)
  then have "relativeState hp b p = Some d"
    using plainChar_not_separator [OF ch] bp(1) sch
    by (simp add: relativeState_def Let_def u p st shorten_def)
  then have "basicParse hp p (Some b) = Some d"
    using bp(1) sch by (simp add: basicParse_def pre ns noSchemeState_def)
  then have new: "URL_new hp p (Some (href b)) = Inr d"
    by (simp add: URL_new_def roundTrip)
  have "bp = butlast bp @ [[]]"
    using bp(2,3) append_butlast_last_id [of bp] by simp
  then have "joinPath bp = joinPath (butlast bp) @ ''/''"
    using joinPath_append [of "butlast bp" "[[]]"] by (simp add: joinPath_def)
  moreover have "joinPath (butlast bp @ s # segs) = joinPath (butlast bp) @ CHR ''/'' # p"
    using joinPath_append [of "butlast bp" "s # segs"] by (simp add: joinPath_def p)
  ultimately have "href d = href b @ p"
    using host q f bp(1)
    by (auto simp: href_def d_def pathname_def joinPath_def)
  with new show ?thesis
    by blast
qed

lemma resolve_destination:
  assumes "directoryBase (hostParser env) (base c)" and "plainRelative p"
    and "toPath = p \<or> toPath = CHR ''/'' # p"
    and "resolveRequestURL env c toPath = Inr d"
  shows "href d = href (base c) @ p"
proof -
  from assms(2) obtain s segs where p: "p = s @ joinPath segs" and s: "plainSegment s"
    by (rule plainRelative_cases)
  from s obtain ch t where st: "s = ch # t" and ch: "plainChar ch"
    by (cases s) (auto simp: plainSegment_def)
  have nsl: "\<not> startsWith p ''/''"
    using plainChar_not_separator [OF ch] by (simp add: p st startsWith_def)
  have "\<not> hasSchemePrefix (CHR ''/'' # p)"
    by (simp add: hasSchemePrefix_def isAlpha_def asciiUpper_def asciiLower_def)
  with assms(2,3) have np: "\<not> hasSchemePrefix toPath"
    by (auto simp: plainRelative_def)
  have "(if startsWith toPath ''/'' then drop 1 toPath else toPath) = p"
    using assms(3) nsl by (auto simp: startsWith_def)
  with np assms(4) have "URL_new (hostParser env) p (Some (href (base c))) = Inr d"
    by (simp add: resolveRequestURL_def Let_def)
  with relative_destination [OF assms(1,2)] show ?thesis
    by auto
qed

text \<open>
  Claim C8, refuted as stated. A destination with a scheme prefix is parsed without the
  base: for \<open>https:x\<close> the header is \<open>https://x/\<close>, while resolving \<open>https:x\<close> against the
  base \<open>https://example.com/dav/\<close> gives \<open>https://example.com/dav/x\<close>.
\<close>

theorem destination_counterexample:
  "href (base exampleClient) = ''https://example.com/dav/'' \<and>
   map transferView
     (snd (moveFile (respondWith notFound) exampleClient ''old.txt'' ''https:x'' None))
     = [(''MOVE'', ''https://example.com/dav/old.txt'', Some ''https://x/'', Some ''F'')] \<and>
   URL_new plainHost ''https:x'' (Some ''https://example.com/dav/'')
     = Inr (exampleBase\<lparr>url_path := Segments [''dav'', ''x'']\<rparr>) \<and>
   href (exampleBase\<lparr>url_path := Segments [''dav'', ''x'']\<rparr>) = ''https://example.com/dav/x''"
proof -
  have "href (base exampleClient) = ''https://example.com/dav/''"
    by code_simp
  moreover have
    "map transferView
       (snd (moveFile (respondWith notFound) exampleClient ''old.txt'' ''https:x'' None))
       = [(''MOVE'', ''https://example.com/dav/old.txt'', Some ''https://x/'', Some ''F'')]"
    by code_simp
  moreover have "URL_new plainHost ''https:x'' (Some ''https://example.com/dav/'')
     = Inr (exampleBase\<lparr>url_path := Segments [''dav'', ''x'']\<rparr>)"
    by code_simp
  moreover have
    "href (exampleBase\<lparr>url_path := Segments [''dav'', ''x'']\<rparr>) = ''https://example.com/dav/x''"
    by code_simp
  ultimately show ?thesis
    by blast
qed

text \<open>
  Claim C8, amended. Whenever source and destination resolve, \<open>moveFile\<close> and \<open>copyFile\<close>
  send one request, \<open>MOVE\<close> or \<open>COPY\<close> to the resolved source, whose headers hold under the
  key \<open>Overwrite\<close> exactly \<open>T\<close> when the flag is true and exactly \<open>F\<close> when it is false or
  omitted, and under the key \<open>Destination\<close> the serialized URL that \<open>resolveRequestURL\<close>
  gives for the destination: a destination with a scheme prefix is parsed on its own. For a
  directory base and a plain relative destination, written with or without one leading
  slash, that URL is the base URL followed by the path: it lies below the base, not below
  the origin.
\<close>

theorem transfer_headers:
  assumes "resolveRequestURL env c fromPath = Inr u" and "resolveRequestURL env c toPath = Inr d"
  shows "map transferView (snd (moveFile env c fromPath toPath overwrite))
           = [(''MOVE'', href u, Some (href d),
               Some (case overwrite of None \<Rightarrow> ''F'' | Some False \<Rightarrow> ''F''
                     | Some True \<Rightarrow> ''T''))] \<and>
         map transferView (snd (copyFile env c fromPath toPath overwrite))
           = [(''COPY'', href u, Some (href d),
               Some (case overwrite of None \<Rightarrow> ''F'' | Some False \<Rightarrow> ''F''
                     | Some True \<Rightarrow> ''T''))] \<and>
         (directoryBase (hostParser env) (base c) \<and> plainRelative p \<and>
            (toPath = p \<or> toPath = CHR ''/'' # p)
            \<longrightarrow> href d = href (base c) @ p)"
proof -
  have o: "(if overwrite = Some True then ''T'' else ''F'')
      = (case overwrite of None \<Rightarrow> ''F'' | Some False \<Rightarrow> ''F'' | Some True \<Rightarrow> ''T'')"
    by (simp split: option.splits bool.splits)
  show ?thesis
    using transfer_sent [OF assms, of "''MOVE''" _ overwrite]
      transfer_sent [OF assms, of "''COPY''" _ overwrite]
      resolve_destination [of env c p toPath d] assms(2)
    by (auto simp: moveFile_def copyFile_def o)
qed

lemma example_directoryBase: "directoryBase plainHost exampleBase"
  by code_simp

lemma example_resolutions:
  "resolveRequestURL (respondWith r) exampleClient ''old.txt''
     = Inr (exampleBase\<lparr>url_path := Segments [''dav'', ''old.txt'']\<rparr>)"
  "resolveRequestURL (respondWith r) exampleClient ''/archive/new.txt''
     = Inr (exampleBase\<lparr>url_path := Segments [''dav'', ''archive'', ''new.txt'']\<rparr>)"
  by code_simp+

theorem transfer_headers_witness:
  "map transferView
     (snd (moveFile (respondWith notFound) exampleClient ''old.txt'' ''/archive/new.txt''
             (Some True)))
     = [(''MOVE'', ''https://example.com/dav/old.txt'',
         Some ''https://example.com/dav/archive/new.txt'', Some ''T'')] \<and>
   map transferView
     (snd (copyFile (respondWith notFound) exampleClient ''old.txt'' ''/archive/new.txt'' None))
     = [(''COPY'', ''https://example.com/dav/old.txt'',
         Some ''https://example.com/dav/archive/new.txt'', Some ''F'')] \<and>
   directoryBase (hostParser (respondWith notFound)) (base exampleClient) \<and>
   plainRelative ''archive/new.txt'' \<and>
   href (exampleBase\<lparr>url_path := Segments [''dav'', ''archive'', ''new.txt'']\<rparr>)
     = href (base exampleClient) @ ''archive/new.txt''"
proof -
  have db: "directoryBase (hostParser (respondWith notFound)) (base exampleClient)"
    using example_directoryBase by (simp add: respondWith_def exampleClient_def)
  have pr: "plainRelative ''archive/new.txt''"
    by code_simp
  have h: "href (exampleBase\<lparr>url_path := Segments [''dav'', ''old.txt'']\<rparr>)
      = ''https://example.com/dav/old.txt''"
    "href (exampleBase\<lparr>url_path := Segments [''dav'', ''archive'', ''new.txt'']\<rparr>)
      = ''https://example.com/dav/archive/new.txt''"
    by code_simp+
  note t = transfer_headers [OF example_resolutions [of notFound],
      of _ "''archive/new.txt''"]
  from t [of "Some True"] t [of None] db pr show ?thesis
    by (simp add: h)
qed

end
